theory Spec2Isabelle
  imports Complex_Main
begin

section \<open>The Corporate Memory query runner (redash/query_runner/corporate_memory.py)\<close>

subsection \<open>Python values and exceptions\<close>

text \<open>
  What \<open>json_loads\<close> can hand to the runner: \<open>None\<close>, booleans, integers, floats, strings,
  lists and dicts. A dict is an association list in insertion order. A JSON float is kept
  by its exact rational value; \<open>NaN\<close>, the infinities and the sign of a zero are not
  represented. A string is the list of its code points, each one \<open>char\<close>, so that only
  strings of code points below 256 are represented.
\<close>

datatype pyval =
    PNone
  | PBool bool
  | PInt int
  | PFloat rat
  | PStr string
  | PList "pyval list"
  | PDict "(pyval \<times> pyval) list"

text \<open>The exceptions that the runner's own statements can raise, and \<open>OtherError\<close> for
  an exception raised inside an external function (its message kept as a string).\<close>

datatype pyerr = KeyError | TypeError | IndexError | ValueError | OtherError string

text \<open>Sequencing of two steps either of which may raise.\<close>

definition and_then :: "pyerr + 'a \<Rightarrow> ('a \<Rightarrow> pyerr + 'b) \<Rightarrow> pyerr + 'b" where
  "and_then r f = (case r of Inl e \<Rightarrow> Inl e | Inr x \<Rightarrow> f x)"

text \<open>Lists and dicts are unhashable; every other value can be a dict key.\<close>

fun py_hashable :: "pyval \<Rightarrow> bool" where
  "py_hashable (PList _) = False"
| "py_hashable (PDict _) = False"
| "py_hashable _ = True"

text \<open>The numeric value of a number; \<open>bool\<close> is a subclass of \<open>int\<close>.\<close>

fun py_number :: "pyval \<Rightarrow> rat option" where
  "py_number (PBool b) = Some (if b then 1 else 0)"
| "py_number (PInt i) = Some (of_int i)"
| "py_number (PFloat r) = Some r"
| "py_number _ = None"

text \<open>Equality of two hashable values as dict keys: strings by content, numbers by value
  (\<open>True == 1 == 1.0\<close>), \<open>None\<close> only with itself.\<close>

definition py_key_eq :: "pyval \<Rightarrow> pyval \<Rightarrow> bool" where
  "py_key_eq a b =
     (case a of
        PStr s \<Rightarrow> (case b of PStr t \<Rightarrow> s = t | _ \<Rightarrow> False)
      | PNone \<Rightarrow> (case b of PNone \<Rightarrow> True | _ \<Rightarrow> False)
      | _ \<Rightarrow> (case py_number a of
                None \<Rightarrow> False
              | Some x \<Rightarrow> (case py_number b of None \<Rightarrow> False | Some y \<Rightarrow> x = y)))"

text \<open>Looking a hashable key up in a dict.\<close>

fun dict_get :: "(pyval \<times> pyval) list \<Rightarrow> pyval \<Rightarrow> pyval option" where
  "dict_get [] k = None"
| "dict_get ((k', v) # d) k = (if py_key_eq k' k then Some v else dict_get d k)"

text \<open>Storing under a hashable key: an equal key keeps its place and its key object and
  takes the new value, a new key goes to the end.\<close>

fun dict_set :: "(pyval \<times> pyval) list \<Rightarrow> pyval \<Rightarrow> pyval \<Rightarrow> (pyval \<times> pyval) list" where
  "dict_set [] k v = [(k, v)]"
| "dict_set ((k', v') # d) k v =
     (if py_key_eq k' k then (k', v) # d else (k', v') # dict_set d k v)"

text \<open>\<open>d[k] = v\<close> on a dict \<open>d\<close>: TypeError for an unhashable key.\<close>

definition py_setitem :: "(pyval \<times> pyval) list \<Rightarrow> pyval \<Rightarrow> pyval \<Rightarrow> pyerr + (pyval \<times> pyval) list" where
  "py_setitem d k v = (if py_hashable k then Inr (dict_set d k v) else Inl TypeError)"

text \<open>An index into a sequence: an \<open>int\<close> (or a \<open>bool\<close>), nothing else.\<close>

fun py_index :: "pyval \<Rightarrow> int option" where
  "py_index (PInt i) = Some i"
| "py_index (PBool b) = Some (if b then 1 else 0)"
| "py_index _ = None"

text \<open>Indexing a sequence: negative indices count from the end, IndexError out of range,
  TypeError for a key that is no integer.\<close>

definition seq_getitem :: "'a list \<Rightarrow> pyval \<Rightarrow> pyerr + 'a" where
  "seq_getitem xs k =
     (case py_index k of
        None \<Rightarrow> Inl TypeError
      | Some i \<Rightarrow>
          if 0 \<le> i \<and> i < int (length xs) then Inr (xs ! nat i)
          else if i < 0 \<and> - int (length xs) \<le> i then Inr (xs ! nat (int (length xs) + i))
          else Inl IndexError)"

text \<open>The subscription \<open>obj[key]\<close>.\<close>

fun py_getitem :: "pyval \<Rightarrow> pyval \<Rightarrow> pyerr + pyval" where
  "py_getitem (PDict d) k =
     (if py_hashable k
      then (case dict_get d k of None \<Rightarrow> Inl KeyError | Some v \<Rightarrow> Inr v)
      else Inl TypeError)"
| "py_getitem (PList xs) k = seq_getitem xs k"
| "py_getitem (PStr s) k = and_then (seq_getitem s k) (\<lambda>c. Inr (PStr [c]))"
| "py_getitem _ k = Inl TypeError"

text \<open>What a \<open>for\<close> loop iterates over: the elements of a list, the keys of a dict, the
  characters of a string; TypeError for a value that is not iterable.\<close>

fun py_iter :: "pyval \<Rightarrow> pyerr + pyval list" where
  "py_iter (PList xs) = Inr xs"
| "py_iter (PDict d) = Inr (map fst d)"
| "py_iter (PStr s) = Inr (map (\<lambda>c. PStr [c]) s)"
| "py_iter _ = Inl TypeError"

subsection \<open>The result translator\<close>

text \<open>\<open>sparql_results["head"]["vars"]\<close>, as the iterable of a \<open>for\<close> loop.\<close>

definition head_vars :: "pyval \<Rightarrow> pyerr + pyval list" where
  "head_vars sparql_results =
     and_then (and_then (py_getitem sparql_results (PStr ''head''))
                        (\<lambda>h. py_getitem h (PStr ''vars'')))
              py_iter"

text \<open>\<open>sparql_results["results"]["bindings"]\<close>, as the iterable of a \<open>for\<close> loop.\<close>

definition results_bindings :: "pyval \<Rightarrow> pyerr + pyval list" where
  "results_bindings sparql_results =
     and_then (and_then (py_getitem sparql_results (PStr ''results''))
                        (\<lambda>r. py_getitem r (PStr ''bindings'')))
              py_iter"

text \<open>The inner loop (lines 122 to 127): one variable after the other, the row growing.
  Only KeyError is caught.\<close>

fun row_loop :: "pyval \<Rightarrow> pyval list \<Rightarrow> (pyval \<times> pyval) list \<Rightarrow> pyerr + (pyval \<times> pyval) list" where
  "row_loop sparql_row [] row = Inr row"
| "row_loop sparql_row (var # vars) row =
     (case and_then (and_then (py_getitem sparql_row var) (\<lambda>d. py_getitem d (PStr ''value'')))
                    (\<lambda>x. py_setitem row var x) of
        Inr row' \<Rightarrow> row_loop sparql_row vars row'
      | Inl KeyError \<Rightarrow>
          (case py_setitem row var (PStr '''') of
             Inr row' \<Rightarrow> row_loop sparql_row vars row'
           | Inl e \<Rightarrow> Inl e)
      | Inl e \<Rightarrow> Inl e)"

text \<open>The outer loop (lines 120 to 128): \<open>head.vars\<close> is read again for every binding.\<close>

fun rows_loop :: "pyval \<Rightarrow> pyval list \<Rightarrow> pyval list \<Rightarrow> pyerr + pyval list" where
  "rows_loop sparql_results [] rows = Inr rows"
| "rows_loop sparql_results (sparql_row # rest) rows =
     (case head_vars sparql_results of
        Inl e \<Rightarrow> Inl e
      | Inr vars \<Rightarrow>
          (case row_loop sparql_row vars [] of
             Inl e \<Rightarrow> Inl e
           | Inr row \<Rightarrow> rows_loop sparql_results rest (rows @ [PDict row])))"

text \<open>The column of a variable (lines 132 to 138).\<close>

definition column :: "pyval \<Rightarrow> pyval" where
  "column var =
     PDict [(PStr ''name'', var), (PStr ''friendly_name'', var), (PStr ''type'', PStr ''string'')]"

fun columns_loop :: "pyval list \<Rightarrow> pyval list \<Rightarrow> pyval list" where
  "columns_loop [] columns = columns"
| "columns_loop (var # vars) columns = columns_loop vars (columns @ [column var])"

text \<open>Lines 118 to 141 without the two JSON calls: from the parsed value to the dict that
  is serialised.\<close>

definition transform_parsed :: "pyval \<Rightarrow> pyerr + pyval" where
  "transform_parsed sparql_results =
     (case results_bindings sparql_results of
        Inl e \<Rightarrow> Inl e
      | Inr bindings \<Rightarrow>
          (case rows_loop sparql_results bindings [] of
             Inl e \<Rightarrow> Inl e
           | Inr rows \<Rightarrow>
               (case head_vars sparql_results of
                  Inl e \<Rightarrow> Inl e
                | Inr vars \<Rightarrow>
                    Inr (PDict [(PStr ''columns'', PList (columns_loop vars [])),
                                (PStr ''rows'', PList rows)]))))"

text \<open>
  The functions the runner calls and that are not part of this module:
  \<open>redash.utils.json_loads\<close> and \<open>json_dumps\<close>, \<open>str.encode("utf-8")\<close>, and
  \<open>SparqlQuery(query).get_results()\<close> of cmempy, which reads its configuration from the
  process environment. Each may raise.
\<close>

record externals =
  json_loads :: "string \<Rightarrow> pyerr + pyval"
  json_dumps :: "pyval \<Rightarrow> pyerr + string"
  encode_utf8 :: "string \<Rightarrow> pyerr + string"
  get_results :: "string \<Rightarrow> (string \<rightharpoonup> string) \<Rightarrow> pyerr + string"

text \<open>The shared state: \<open>os.environ\<close> and what was given to \<open>logger.info\<close>, each message
  kept as its format string and arguments.\<close>

record world =
  environ :: "string \<rightharpoonup> string"
  logged :: "(string \<times> string list) list"

definition logger_info :: "string \<Rightarrow> string list \<Rightarrow> world \<Rightarrow> world" where
  "logger_info fmt args w = w\<lparr>logged := logged w @ [(fmt, args)]\<rparr>"

text \<open>\<open>_transform_sparql_results\<close> (lines 94 to 141): the result or the exception, and the
  state afterwards.\<close>

definition transform_sparql_results :: "externals \<Rightarrow> string \<Rightarrow> world \<Rightarrow> (pyerr + string) \<times> world" where
  "transform_sparql_results ext results w =
     (let w1 = logger_info ''results are: {}'' [results] w
      in (and_then (json_loads ext results)
            (\<lambda>sparql_results. and_then (transform_parsed sparql_results) (json_dumps ext)),
          w1))"

subsection \<open>Staging the environment\<close>

definition KNOWN_CONFIG_KEYS :: "string list" where
  "KNOWN_CONFIG_KEYS =
     [''CMEM_BASE_PROTOCOL'', ''CMEM_BASE_DOMAIN'', ''CMEM_BASE_URI'', ''SSL_VERIFY'',
      ''REQUESTS_CA_BUNDLE'', ''DP_API_ENDPOINT'', ''DI_API_ENDPOINT'', ''OAUTH_TOKEN_URI'',
      ''OAUTH_GRANT_TYPE'', ''OAUTH_USER'', ''OAUTH_PASSWORD'', ''OAUTH_CLIENT_ID'',
      ''OAUTH_CLIENT_SECRET'']"

definition KNOWN_SECRET_KEYS :: "string list" where
  "KNOWN_SECRET_KEYS = [''OAUTH_PASSWORD'', ''OAUTH_CLIENT_SECRET'']"

text \<open>\<open>self.configuration.get(key, None)\<close>.\<close>

definition configuration_get :: "(string \<rightharpoonup> pyval) \<Rightarrow> string \<Rightarrow> pyval" where
  "configuration_get configuration key =
     (case configuration key of None \<Rightarrow> PNone | Some v \<Rightarrow> v)"

text \<open>\<open>environ[key] = value\<close>: \<open>os.environ\<close> takes only a \<open>str\<close> (TypeError otherwise), and
  no string with a null character (ValueError).\<close>

definition environ_setitem :: "string \<Rightarrow> pyval \<Rightarrow> (string \<rightharpoonup> string) \<Rightarrow> pyerr + (string \<rightharpoonup> string)" where
  "environ_setitem key v env =
     (case v of
        PStr s \<Rightarrow> (if CHR 0x00 \<in> set s then Inl ValueError else Inr (env(key \<mapsto> s)))
      | _ \<Rightarrow> Inl TypeError)"

text \<open>The body of the loop of \<open>_setup_environment\<close> (lines 80 to 92) for one key.\<close>

definition setup_key :: "(string \<rightharpoonup> pyval) \<Rightarrow> string \<Rightarrow> world \<Rightarrow> (pyerr + unit) \<times> world" where
  "setup_key configuration key w =
     (let w1 = (if environ w key \<noteq> None then w\<lparr>environ := (environ w)(key := None)\<rparr> else w);
          v = configuration_get configuration key
      in if v \<noteq> PNone
         then (case environ_setitem key v (environ w1) of
                 Inl e \<Rightarrow> (Inl e, w1)
               | Inr env \<Rightarrow>
                   (let w2 = w1\<lparr>environ := env\<rparr>
                    in (Inr (),
                        if key \<in> set KNOWN_SECRET_KEYS
                        then logger_info ''{} set by config'' [key] w2
                        else logger_info ''{} set by config to {}'' [key, the (environ w2 key)] w2)))
         else (Inr (), w1))"

fun setup_loop :: "(string \<rightharpoonup> pyval) \<Rightarrow> string list \<Rightarrow> world \<Rightarrow> (pyerr + unit) \<times> world" where
  "setup_loop configuration [] w = (Inr (), w)"
| "setup_loop configuration (key # keys) w =
     (case setup_key configuration key w of
        (Inl e, w') \<Rightarrow> (Inl e, w')
      | (Inr _, w') \<Rightarrow> setup_loop configuration keys w')"

definition setup_environment :: "(string \<rightharpoonup> pyval) \<Rightarrow> world \<Rightarrow> (pyerr + unit) \<times> world" where
  "setup_environment configuration w = setup_loop configuration KNOWN_CONFIG_KEYS w"

subsection \<open>Running a query\<close>

text \<open>\<open>run_query\<close> (lines 155 to 173); the \<open>user\<close> argument is not used. The result is the
  pair \<open>(data, error)\<close> or the exception.\<close>

definition run_query ::
  "externals \<Rightarrow> (string \<rightharpoonup> pyval) \<Rightarrow> string \<Rightarrow> world \<Rightarrow> (pyerr + string \<times> string option) \<times> world" where
  "run_query ext configuration query w =
     (case encode_utf8 ext query of
        Inl e \<Rightarrow> (Inl e, w)
      | Inr q \<Rightarrow>
          (let w1 = logger_info ''about to execute query: {}'' [q] w
           in case setup_environment configuration w1 of
                (Inl e, w2) \<Rightarrow> (Inl e, w2)
              | (Inr _, w2) \<Rightarrow>
                  (case get_results ext q (environ w2) of
                     Inl e \<Rightarrow> (Inl e, w2)
                   | Inr raw \<Rightarrow>
                       (case encode_utf8 ext raw of
                          Inl e \<Rightarrow> (Inl e, w2)
                        | Inr encoded \<Rightarrow>
                            (case transform_sparql_results ext encoded w2 of
                               (Inl e, w3) \<Rightarrow> (Inl e, w3)
                             | (Inr data, w3) \<Rightarrow> (Inr (data, None), w3))))))"

subsection \<open>The shape of the input and of a cell, in the specification's words\<close>

text \<open>The member \<open>k\<close> of a JSON object; nothing for a value that is no object or has no
  such member.\<close>

fun json_member :: "pyval \<Rightarrow> string \<Rightarrow> pyval option" where
  "json_member (PDict d) k = dict_get d (PStr k)"
| "json_member _ k = None"

text \<open>The member \<open>b\<close> of the member \<open>a\<close>, as in \<open>head.vars\<close>.\<close>

definition json_path2 :: "pyval \<Rightarrow> string \<Rightarrow> string \<Rightarrow> pyval option" where
  "json_path2 v a b = (case json_member v a of None \<Rightarrow> None | Some h \<Rightarrow> json_member h b)"

text \<open>The parsed input contains \<open>head.vars\<close>, an array of the strings \<open>vs\<close>, and
  \<open>results.bindings\<close>, an array of the objects \<open>bs\<close>.\<close>

definition sparql_shape :: "pyval \<Rightarrow> string list \<Rightarrow> (pyval \<times> pyval) list list \<Rightarrow> bool" where
  "sparql_shape sr vs bs =
     (json_path2 sr ''head'' ''vars'' = Some (PList (map PStr vs)) \<and>
      json_path2 sr ''results'' ''bindings'' = Some (PList (map PDict bs)))"

text \<open>The cell of variable \<open>v\<close> for binding \<open>b\<close>: \<open>b[v].value\<close> if \<open>v\<close> is a key of \<open>b\<close> and
  that value has a \<open>value\<close> field, the empty string otherwise.\<close>

definition spec_cell :: "(pyval \<times> pyval) list \<Rightarrow> string \<Rightarrow> pyval" where
  "spec_cell b v =
     (case dict_get b (PStr v) of
        None \<Rightarrow> PStr ''''
      | Some d \<Rightarrow> (case json_member d ''value'' of None \<Rightarrow> PStr '''' | Some x \<Rightarrow> x))"

fun is_object :: "pyval \<Rightarrow> bool" where
  "is_object (PDict _) = True"
| "is_object _ = False"

text \<open>Whatever the binding \<open>b\<close> gives to a variable of \<open>vs\<close> is an object (a value
  descriptor).\<close>

definition bound_to_objects :: "string list \<Rightarrow> (pyval \<times> pyval) list \<Rightarrow> bool" where
  "bound_to_objects vs b =
     (\<forall>v \<in> set vs. case dict_get b (PStr v) of None \<Rightarrow> True | Some d \<Rightarrow> is_object d)"

text \<open>The row after the inner loop has gone through \<open>vs\<close> without raising.\<close>

definition filled_row :: "(pyval \<times> pyval) list \<Rightarrow> string list \<Rightarrow> (pyval \<times> pyval) list \<Rightarrow> (pyval \<times> pyval) list" where
  "filled_row b vs row = fold (\<lambda>v r. dict_set r (PStr v) (spec_cell b v)) vs row"

text \<open>A valid input: the shape above, with value descriptors that are objects, as the
  SPARQL 1.1 Query Results JSON Format has them.\<close>

definition sparql_valid :: "pyval \<Rightarrow> string list \<Rightarrow> (pyval \<times> pyval) list list \<Rightarrow> bool" where
  "sparql_valid sr vs bs = (sparql_shape sr vs bs \<and> list_all (bound_to_objects vs) bs)"

text \<open>A configuration value that \<open>_setup_environment\<close> can stage: \<open>None\<close>, or a string
  without a null character.\<close>

fun stageable :: "pyval \<Rightarrow> bool" where
  "stageable PNone = True"
| "stageable (PStr s) = (CHR 0x00 \<notin> set s)"
| "stageable _ = False"

text \<open>What staging leaves in the environment for an allow-listed key.\<close>

definition staged :: "(string \<rightharpoonup> pyval) \<Rightarrow> string \<Rightarrow> string option" where
  "staged configuration key =
     (case configuration_get configuration key of PStr s \<Rightarrow> Some s | _ \<Rightarrow> None)"

subsection \<open>Concrete inputs\<close>

text \<open>Externals for the concrete instances below: \<open>json_loads\<close> knows the one document
  \<open>text\<close> and its parse \<open>parsed\<close>, \<open>json_dumps\<close> writes \<open>dumped\<close>, the encoder is
  the identity and the SPARQL client answers \<open>answer\<close>.\<close>

definition fixed_externals :: "string \<Rightarrow> pyval \<Rightarrow> string \<Rightarrow> pyerr + string \<Rightarrow> externals" where
  "fixed_externals text parsed dumped answer =
     \<lparr>json_loads = (\<lambda>s. if s = text then Inr parsed else Inl ValueError),
      json_dumps = (\<lambda>v. Inr dumped),
      encode_utf8 = Inr,
      get_results = (\<lambda>q env. answer)\<rparr>"

definition quiet_world :: world where
  "quiet_world = \<lparr>environ = Map.empty, logged = []\<rparr>"

text \<open>Scenario 1 of the specification: the document and its parse.\<close>

definition noop_text :: string where
  \<open>noop_text = ''{"head":{"vars":["noop"]},"results":{"bindings":[{"noop":{"type":"literal","value":"noop"}}]}}''\<close>

definition noop_parsed :: pyval where
  "noop_parsed =
     PDict [(PStr ''head'', PDict [(PStr ''vars'', PList [PStr ''noop''])]),
            (PStr ''results'', PDict [(PStr ''bindings'',
               PList [PDict [(PStr ''noop'',
                        PDict [(PStr ''type'', PStr ''literal''), (PStr ''value'', PStr ''noop'')])]])])]"

definition noop_expected :: pyval where
  "noop_expected =
     PDict [(PStr ''columns'',
               PList [PDict [(PStr ''name'', PStr ''noop''), (PStr ''friendly_name'', PStr ''noop''),
                             (PStr ''type'', PStr ''string'')]]),
            (PStr ''rows'', PList [PDict [(PStr ''noop'', PStr ''noop'')]])]"

text \<open>A document with \<open>head.vars = vs\<close> and \<open>results.bindings = bs\<close>.\<close>

definition sparql_document :: "string list \<Rightarrow> (pyval \<times> pyval) list list \<Rightarrow> pyval" where
  "sparql_document vs bs =
     PDict [(PStr ''head'', PDict [(PStr ''vars'', PList (map PStr vs))]),
            (PStr ''results'', PDict [(PStr ''bindings'', PList (map PDict bs))])]"

text \<open>Two variables and two bindings: the first binds \<open>a\<close> to the number 42 and leaves
  \<open>b\<close> unbound, the second gives \<open>a\<close> a descriptor without a \<open>value\<close> and binds \<open>b\<close>.\<close>

definition two_bindings :: "(pyval \<times> pyval) list list" where
  "two_bindings =
     [[(PStr ''a'', PDict [(PStr ''type'', PStr ''literal''), (PStr ''value'', PInt 42)])],
      [(PStr ''a'', PDict [(PStr ''type'', PStr ''bnode'')]),
       (PStr ''b'', PDict [(PStr ''type'', PStr ''uri''), (PStr ''value'', PStr ''urn:x'')])]]"

text \<open>A binding that gives \<open>a\<close> a plain string in place of a descriptor.\<close>

definition plain_string_binding :: "(pyval \<times> pyval) list list" where
  "plain_string_binding = [[(PStr ''a'', PStr ''x'')]]"

text \<open>The document \<open>{"results": {"bindings": []}}\<close>, which has no \<open>head\<close>.\<close>

definition headless_document :: pyval where
  "headless_document = PDict [(PStr ''results'', PDict [(PStr ''bindings'', PList [])])]"

text \<open>Scenario 5 of the specification: the configuration, and a world in which an
  allow-listed key and another key are set.\<close>

definition uri_configuration :: "string \<rightharpoonup> pyval" where
  "uri_configuration = [''CMEM_BASE_URI'' \<mapsto> PStr ''https://x'']"

definition used_world :: world where
  "used_world = \<lparr>environ = [''OAUTH_USER'' \<mapsto> ''old'', ''PATH'' \<mapsto> ''/bin''], logged = []\<rparr>"

subsection \<open>Objects on a heap\<close>

text \<open>
  A second model of the translator, in which lists and dicts are objects with an
  identity: the heap is the list of all objects made so far, a reference \<open>HRef a\<close> is
  the position of an object in it, and a variable or a container holds either an immutable
  scalar or a reference. Making an object appends to the heap, and \<open>d[k] = v\<close> and
  \<open>xs.append(v)\<close> overwrite the object at its position.
\<close>

datatype hval = HNone | HBool bool | HInt int | HFloat rat | HStr string | HRef nat

datatype hobj = OList "hval list" | ODict "(hval \<times> hval) list"

text \<open>The value of an immutable scalar; a reference has none, and is unhashable.\<close>

fun of_imm :: "hval \<Rightarrow> pyval option" where
  "of_imm HNone = Some PNone"
| "of_imm (HBool b) = Some (PBool b)"
| "of_imm (HInt i) = Some (PInt i)"
| "of_imm (HFloat r) = Some (PFloat r)"
| "of_imm (HStr s) = Some (PStr s)"
| "of_imm (HRef a) = None"

text \<open>Key equality, lookup and store in a dict object, as for \<open>dict_get\<close> and
  \<open>dict_set\<close>.\<close>

definition h_key_eq :: "hval \<Rightarrow> hval \<Rightarrow> bool" where
  "h_key_eq a b =
     (case of_imm a of
        None \<Rightarrow> False
      | Some x \<Rightarrow> (case of_imm b of None \<Rightarrow> False | Some y \<Rightarrow> py_key_eq x y))"

fun h_dict_get :: "(hval \<times> hval) list \<Rightarrow> hval \<Rightarrow> hval option" where
  "h_dict_get [] k = None"
| "h_dict_get ((k', v) # d) k = (if h_key_eq k' k then Some v else h_dict_get d k)"

fun h_dict_set :: "(hval \<times> hval) list \<Rightarrow> hval \<Rightarrow> hval \<Rightarrow> (hval \<times> hval) list" where
  "h_dict_set [] k v = [(k, v)]"
| "h_dict_set ((k', v') # d) k v =
     (if h_key_eq k' k then (k', v) # d else (k', v') # h_dict_set d k v)"

text \<open>The object at a position. No reference that the translator handles is dangling;
  the error is there to make the lookup total.\<close>

definition h_lookup :: "hobj list \<Rightarrow> nat \<Rightarrow> pyerr + hobj" where
  "h_lookup h a = (if a < length h then Inr (h ! a) else Inl (OtherError ''dangling reference''))"

text \<open>The subscription \<open>obj[key]\<close> and the iteration of a \<open>for\<close> loop, reading the
  heap. A loop takes the elements when it starts; the translator does not change the
  objects that it iterates over.\<close>

definition h_getitem :: "hobj list \<Rightarrow> hval \<Rightarrow> hval \<Rightarrow> pyerr + hval" where
  "h_getitem h x k =
     (case x of
        HRef a \<Rightarrow>
          and_then (h_lookup h a)
            (\<lambda>obj. case obj of
               ODict d \<Rightarrow>
                 (if of_imm k = None then Inl TypeError
                  else (case h_dict_get d k of None \<Rightarrow> Inl KeyError | Some v \<Rightarrow> Inr v))
             | OList xs \<Rightarrow>
                 (case of_imm k of None \<Rightarrow> Inl TypeError | Some i \<Rightarrow> seq_getitem xs i))
      | HStr s \<Rightarrow>
          (case of_imm k of
             None \<Rightarrow> Inl TypeError
           | Some i \<Rightarrow> and_then (seq_getitem s i) (\<lambda>c. Inr (HStr [c])))
      | _ \<Rightarrow> Inl TypeError)"

definition h_iter :: "hobj list \<Rightarrow> hval \<Rightarrow> pyerr + hval list" where
  "h_iter h x =
     (case x of
        HRef a \<Rightarrow>
          and_then (h_lookup h a)
            (\<lambda>obj. case obj of OList xs \<Rightarrow> Inr xs | ODict d \<Rightarrow> Inr (map fst d))
      | HStr s \<Rightarrow> Inr (map (\<lambda>c. HStr [c]) s)
      | _ \<Rightarrow> Inl TypeError)"

text \<open>A new object (\<open>[]\<close>, \<open>{}\<close>, a dict display), \<open>row[var] = x\<close> on the dict at
  position \<open>a\<close>, and \<open>rows.append(x)\<close> on the list at position \<open>a\<close>.\<close>

definition h_alloc :: "hobj list \<Rightarrow> hobj \<Rightarrow> nat \<times> hobj list" where
  "h_alloc h obj = (length h, h @ [obj])"

definition h_dict_store :: "hobj list \<Rightarrow> nat \<Rightarrow> hval \<Rightarrow> hval \<Rightarrow> pyerr + hobj list" where
  "h_dict_store h a k v =
     (if of_imm k = None then Inl TypeError
      else and_then (h_lookup h a)
             (\<lambda>obj. case obj of
                ODict d \<Rightarrow> Inr (h[a := ODict (h_dict_set d k v)])
              | OList xs \<Rightarrow> Inl (OtherError ''not a dict'')))"

definition h_list_append :: "hobj list \<Rightarrow> nat \<Rightarrow> hval \<Rightarrow> pyerr + hobj list" where
  "h_list_append h a v =
     and_then (h_lookup h a)
       (\<lambda>obj. case obj of
          OList xs \<Rightarrow> Inr (h[a := OList (xs @ [v])])
        | ODict d \<Rightarrow> Inl (OtherError ''not a list''))"

text \<open>Lines 118 to 141 on the heap: \<open>rows\<close>, each \<open>row\<close>, \<open>columns\<close>, each column and
  the returned dict are new objects; the row is filled in place and appended to \<open>rows\<close>.\<close>

definition h_head_vars :: "hobj list \<Rightarrow> hval \<Rightarrow> pyerr + hval list" where
  "h_head_vars h sparql_results =
     and_then (and_then (h_getitem h sparql_results (HStr ''head''))
                        (\<lambda>x. h_getitem h x (HStr ''vars'')))
              (h_iter h)"

definition h_results_bindings :: "hobj list \<Rightarrow> hval \<Rightarrow> pyerr + hval list" where
  "h_results_bindings h sparql_results =
     and_then (and_then (h_getitem h sparql_results (HStr ''results''))
                        (\<lambda>x. h_getitem h x (HStr ''bindings'')))
              (h_iter h)"

fun h_row_loop :: "hval \<Rightarrow> hval list \<Rightarrow> nat \<Rightarrow> hobj list \<Rightarrow> (pyerr + unit) \<times> hobj list" where
  "h_row_loop sparql_row [] row h = (Inr (), h)"
| "h_row_loop sparql_row (var # vars) row h =
     (case and_then (and_then (h_getitem h sparql_row var) (\<lambda>d. h_getitem h d (HStr ''value'')))
                    (\<lambda>x. h_dict_store h row var x) of
        Inr h' \<Rightarrow> h_row_loop sparql_row vars row h'
      | Inl KeyError \<Rightarrow>
          (case h_dict_store h row var (HStr '''') of
             Inr h' \<Rightarrow> h_row_loop sparql_row vars row h'
           | Inl e \<Rightarrow> (Inl e, h))
      | Inl e \<Rightarrow> (Inl e, h))"

fun h_rows_loop :: "hval \<Rightarrow> hval list \<Rightarrow> nat \<Rightarrow> hobj list \<Rightarrow> (pyerr + unit) \<times> hobj list" where
  "h_rows_loop sparql_results [] rows h = (Inr (), h)"
| "h_rows_loop sparql_results (sparql_row # rest) rows h =
     (case h_alloc h (ODict []) of
        (row, h1) \<Rightarrow>
          (case h_head_vars h1 sparql_results of
             Inl e \<Rightarrow> (Inl e, h1)
           | Inr vars \<Rightarrow>
               (case h_row_loop sparql_row vars row h1 of
                  (Inl e, h2) \<Rightarrow> (Inl e, h2)
                | (Inr _, h2) \<Rightarrow>
                    (case h_list_append h2 rows (HRef row) of
                       Inl e \<Rightarrow> (Inl e, h2)
                     | Inr h3 \<Rightarrow> h_rows_loop sparql_results rest rows h3))))"

definition h_column :: "hval \<Rightarrow> hobj" where
  "h_column var =
     ODict [(HStr ''name'', var), (HStr ''friendly_name'', var), (HStr ''type'', HStr ''string'')]"

fun h_columns_loop :: "hval list \<Rightarrow> nat \<Rightarrow> hobj list \<Rightarrow> (pyerr + unit) \<times> hobj list" where
  "h_columns_loop [] columns h = (Inr (), h)"
| "h_columns_loop (var # vars) columns h =
     (case h_alloc h (h_column var) of
        (c, h1) \<Rightarrow>
          (case h_list_append h1 columns (HRef c) of
             Inl e \<Rightarrow> (Inl e, h1)
           | Inr h2 \<Rightarrow> h_columns_loop vars columns h2))"

definition h_transform :: "hval \<Rightarrow> hobj list \<Rightarrow> (pyerr + hval) \<times> hobj list" where
  "h_transform sparql_results h =
     (case h_alloc h (OList []) of
        (rows, h1) \<Rightarrow>
          (case h_results_bindings h1 sparql_results of
             Inl e \<Rightarrow> (Inl e, h1)
           | Inr bindings \<Rightarrow>
               (case h_rows_loop sparql_results bindings rows h1 of
                  (Inl e, h2) \<Rightarrow> (Inl e, h2)
                | (Inr _, h2) \<Rightarrow>
                    (case h_alloc h2 (OList []) of
                       (columns, h3) \<Rightarrow>
                         (case h_head_vars h3 sparql_results of
                            Inl e \<Rightarrow> (Inl e, h3)
                          | Inr vars \<Rightarrow>
                              (case h_columns_loop vars columns h3 of
                                 (Inl e, h4) \<Rightarrow> (Inl e, h4)
                               | (Inr _, h4) \<Rightarrow>
                                   (case h_alloc h4 (ODict [(HStr ''columns'', HRef columns),
                                                            (HStr ''rows'', HRef rows)]) of
                                      (out, h5) \<Rightarrow> (Inr (HRef out), h5))))))))"

text \<open>\<open>repr h v p\<close>: in the heap \<open>h\<close>, the value \<open>v\<close> is the structure \<open>p\<close>.\<close>

inductive repr :: "hobj list \<Rightarrow> hval \<Rightarrow> pyval \<Rightarrow> bool" for h where
  repr_imm: "of_imm v = Some p \<Longrightarrow> repr h v p"
| repr_list: "a < length h \<Longrightarrow> h ! a = OList xs \<Longrightarrow> list_all2 (repr h) xs ps \<Longrightarrow>
              repr h (HRef a) (PList ps)"
| repr_dict: "a < length h \<Longrightarrow> h ! a = ODict d \<Longrightarrow>
              list_all2 (\<lambda>e ep. of_imm (fst e) = Some (fst ep) \<and> repr h (snd e) (snd ep)) d dp \<Longrightarrow>
              repr h (HRef a) (PDict dp)"

text \<open>The entries of a dict object are those of a dict structure: same keys, values
  that are the structures.\<close>

definition entries_rel :: "hobj list \<Rightarrow> (hval \<times> hval) list \<Rightarrow> (pyval \<times> pyval) list \<Rightarrow> bool" where
  "entries_rel h d dp =
     list_all2 (\<lambda>e ep. of_imm (fst e) = Some (fst ep) \<and> repr h (snd e) (snd ep)) d dp"

text \<open>The invariant of \<open>rows\<close> and of \<open>columns\<close>: the list holds references to the
  dict objects made after it, at the positions from \<open>base\<close> on, and these are the dicts
  \<open>rps\<close> with values from the heap \<open>h\<close>.\<close>

definition refs_inv :: "hobj list \<Rightarrow> nat \<Rightarrow> hobj list \<Rightarrow> hval list \<Rightarrow> pyval list \<Rightarrow> bool" where
  "refs_inv h base cells rs rps =
     list_all2 (\<lambda>r rp. \<exists>i d dp. r = HRef (base + i) \<and> i < length cells \<and> cells ! i = ODict d \<and>
                                 rp = PDict dp \<and> entries_rel h d dp) rs rps"

text \<open>The JSON functions on the heap: the parser makes the objects of the parse and
  returns a reference, the serialiser reads the objects from a reference.\<close>

record heap_externals =
  h_json_loads :: "string \<Rightarrow> hobj list \<Rightarrow> (pyerr + hval) \<times> hobj list"
  h_json_dumps :: "hval \<Rightarrow> hobj list \<Rightarrow> (pyerr + string) \<times> hobj list"

text \<open>\<open>_transform_sparql_results\<close> (lines 94 to 141) on the heap.\<close>

definition h_transform_sparql_results ::
  "heap_externals \<Rightarrow> string \<Rightarrow> world \<Rightarrow> hobj list \<Rightarrow> (pyerr + string) \<times> world \<times> hobj list" where
  "h_transform_sparql_results hx results w h =
     (let w1 = logger_info ''results are: {}'' [results] w
      in case h_json_loads hx results h of
           (Inl e, h1) \<Rightarrow> (Inl e, w1, h1)
         | (Inr sparql_results, h1) \<Rightarrow>
             (case h_transform sparql_results h1 of
                (Inl e, h2) \<Rightarrow> (Inl e, w1, h2)
              | (Inr out, h2) \<Rightarrow>
                  (case h_json_dumps hx out h2 of (r, h3) \<Rightarrow> (r, w1, h3))))"

text \<open>The JSON library is deterministic and changes no object: for a text, the parser
  makes new objects that are the structure \<open>json_loads\<close> gives for it, or raises the same
  error; the serialiser makes only new objects, and its outcome is that of \<open>json_dumps\<close>
  on the structure it is given.\<close>

definition library_implements :: "heap_externals \<Rightarrow> externals \<Rightarrow> bool" where
  "library_implements hx ext =
     ((\<forall>s h. \<exists>new. snd (h_json_loads hx s h) = h @ new \<and>
                    rel_sum (=) (repr (h @ new)) (fst (h_json_loads hx s h)) (json_loads ext s)) \<and>
      (\<forall>v h p. repr h v p \<longrightarrow> (\<exists>new. h_json_dumps hx v h = (json_dumps ext p, h @ new))))"

text \<open>The objects of the parse of scenario 1, made at the positions from \<open>n\<close> on, and
  JSON functions that know this one document.\<close>

definition noop_objects :: "nat \<Rightarrow> hobj list" where
  "noop_objects n =
     [OList [HStr ''noop''],
      ODict [(HStr ''vars'', HRef n)],
      ODict [(HStr ''type'', HStr ''literal''), (HStr ''value'', HStr ''noop'')],
      ODict [(HStr ''noop'', HRef (n + 2))],
      OList [HRef (n + 3)],
      ODict [(HStr ''bindings'', HRef (n + 4))],
      ODict [(HStr ''head'', HRef (n + 1)), (HStr ''results'', HRef (n + 5))]]"

definition noop_heap_externals :: heap_externals where
  "noop_heap_externals =
     \<lparr>h_json_loads = (\<lambda>s h. if s = noop_text
                             then (Inr (HRef (length h + 6)), h @ noop_objects (length h))
                             else (Inl ValueError, h)),
      h_json_dumps = (\<lambda>v h. (Inr ''out'', h))\<rparr>"

section \<open>Properties\<close>

subsection \<open>Lookups and loops\<close>

lemma py_key_eq_PStr [simp]:
  "py_key_eq (PStr a) k = (k = PStr a)"
  "py_key_eq k (PStr a) = (k = PStr a)"
  by (auto simp: py_key_eq_def split: pyval.splits option.splits)

lemma and_then_simps [simp]:
  "and_then (Inl e) f = Inl e"
  "and_then (Inr x) f = f x"
  by (simp_all add: and_then_def)

lemma json_member_getitem:
  "json_member x k = Some h \<Longrightarrow> py_getitem x (PStr k) = Inr h"
  by (cases x) auto

lemma getitem_str_errors:
  "py_getitem x (PStr k) = Inl e \<Longrightarrow> e = KeyError \<or> e = TypeError"
  by (cases x) (auto simp: seq_getitem_def split: option.splits if_splits)

lemma json_member_none_getitem:
  "json_member x k = None \<Longrightarrow> py_getitem x (PStr k) = Inl KeyError \<or> py_getitem x (PStr k) = Inl TypeError"
  by (cases x) (auto simp: seq_getitem_def split: option.splits if_splits)

lemma path_present:
  "json_path2 sr a b = Some x \<Longrightarrow>
   and_then (py_getitem sr (PStr a)) (\<lambda>h. py_getitem h (PStr b)) = Inr x"
  by (auto simp: json_path2_def json_member_getitem split: option.splits)

lemma path_missing:
  assumes "json_path2 sr a b = None"
  shows "and_then (py_getitem sr (PStr a)) (\<lambda>h. py_getitem h (PStr b)) = Inl KeyError \<or>
         and_then (py_getitem sr (PStr a)) (\<lambda>h. py_getitem h (PStr b)) = Inl TypeError"
proof (cases "json_member sr a")
  case None
  then show ?thesis using json_member_none_getitem [of sr a] by auto
next
  case (Some h)
  then have "json_member h b = None" using assms by (simp add: json_path2_def)
  then show ?thesis
    using json_member_none_getitem [of h b] json_member_getitem [OF Some] by auto
qed

lemma shape_head_vars: "sparql_shape sr vs bs \<Longrightarrow> head_vars sr = Inr (map PStr vs)"
  by (simp add: sparql_shape_def head_vars_def path_present)

lemma shape_results_bindings: "sparql_shape sr vs bs \<Longrightarrow> results_bindings sr = Inr (map PDict bs)"
  by (simp add: sparql_shape_def results_bindings_def path_present)

lemma columns_loop_append: "columns_loop vars acc = acc @ map column vars"
  by (induction vars arbitrary: acc) auto

lemma row_step:
  assumes "case dict_get b (PStr v) of None \<Rightarrow> True | Some d \<Rightarrow> is_object d"
  shows "row_loop (PDict b) (PStr v # vars) row =
         row_loop (PDict b) vars (dict_set row (PStr v) (spec_cell b v))"
proof (cases "dict_get b (PStr v)")
  case None
  then show ?thesis by (simp add: spec_cell_def py_setitem_def)
next
  case (Some d)
  then obtain dd where d: "d = PDict dd" using assms by (cases d) auto
  show ?thesis
    by (cases "dict_get dd (PStr ''value'')") (simp_all add: Some d spec_cell_def py_setitem_def)
qed

lemma row_loop_filled:
  "bound_to_objects vs b \<Longrightarrow> row_loop (PDict b) (map PStr vs) row = Inr (filled_row b vs row)"
proof (induction vs arbitrary: row)
  case Nil
  then show ?case by (simp add: filled_row_def)
next
  case (Cons v vs)
  have "bound_to_objects vs b" using Cons.prems by (simp add: bound_to_objects_def)
  moreover have "case dict_get b (PStr v) of None \<Rightarrow> True | Some d \<Rightarrow> is_object d"
    using Cons.prems by (simp add: bound_to_objects_def)
  ultimately show ?case
    using Cons.IH row_step [of b v] by (simp add: filled_row_def)
qed

lemma dict_get_set_str:
  "dict_get (dict_set d (PStr a) x) (PStr c) = (if a = c then Some x else dict_get d (PStr c))"
  by (induction d) auto

lemma keys_dict_set_str:
  "map fst (dict_set d (PStr a) x) =
     (if PStr a \<in> set (map fst d) then map fst d else map fst d @ [PStr a])"
  by (induction d) (force+)

lemma keys_set_dict_set_str:
  "set (map fst (dict_set d (PStr a) x)) = insert (PStr a) (set (map fst d))"
  unfolding keys_dict_set_str by auto

lemma filled_row_get:
  "dict_get (filled_row b vs row) (PStr c) =
     (if c \<in> set vs then Some (spec_cell b c) else dict_get row (PStr c))"
  by (induction vs arbitrary: row) (auto simp: filled_row_def dict_get_set_str)

lemma filled_row_keys_set:
  "set (map fst (filled_row b vs row)) = set (map fst row) \<union> PStr ` set vs"
proof (induction vs arbitrary: row)
  case Nil
  then show ?case by (simp add: filled_row_def)
next
  case (Cons v vs)
  have "set (map fst (filled_row b (v # vs) row)) =
        set (map fst (filled_row b vs (dict_set row (PStr v) (spec_cell b v))))"
    by (simp add: filled_row_def)
  also have "\<dots> = set (map fst (dict_set row (PStr v) (spec_cell b v))) \<union> PStr ` set vs"
    by (rule Cons.IH)
  also have "\<dots> = set (map fst row) \<union> PStr ` set (v # vs)"
    unfolding keys_set_dict_set_str by auto
  finally show ?case .
qed

lemma filled_row_keys_distinct:
  "distinct (map fst row) \<Longrightarrow> distinct (map fst (filled_row b vs row))"
  by (induction vs arbitrary: row) (auto simp: filled_row_def keys_dict_set_str)

lemma filled_row_keys_order:
  "distinct vs \<Longrightarrow> PStr ` set vs \<inter> set (map fst row) = {} \<Longrightarrow>
   map fst (filled_row b vs row) = map fst row @ map PStr vs"
proof (induction vs arbitrary: row)
  case Nil
  then show ?case by (simp add: filled_row_def)
next
  case (Cons v vs)
  have k: "map fst (dict_set row (PStr v) (spec_cell b v)) = map fst row @ [PStr v]"
    using Cons.prems by (auto simp: keys_dict_set_str)
  have "PStr ` set vs \<inter> set (map fst (dict_set row (PStr v) (spec_cell b v))) = {}"
    using Cons.prems unfolding k by auto
  then have "map fst (filled_row b vs (dict_set row (PStr v) (spec_cell b v))) =
             map fst (dict_set row (PStr v) (spec_cell b v)) @ map PStr vs"
    using Cons.IH Cons.prems by simp
  then show ?case by (simp add: filled_row_def k)
qed

lemma rows_loop_filled:
  assumes "head_vars sr = Inr (map PStr vs)"
  shows "\<forall>b \<in> set bs. bound_to_objects vs b \<Longrightarrow>
         rows_loop sr (map PDict bs) acc = Inr (acc @ map (\<lambda>b. PDict (filled_row b vs [])) bs)"
  by (induction bs arbitrary: acc) (simp_all add: assms row_loop_filled)

lemma transform_parsed_filled:
  assumes "sparql_shape sr vs bs" "\<forall>b \<in> set bs. bound_to_objects vs b"
  shows "transform_parsed sr =
         Inr (PDict [(PStr ''columns'', PList (map (\<lambda>v. column (PStr v)) vs)),
                     (PStr ''rows'', PList (map (\<lambda>b. PDict (filled_row b vs [])) bs))])"
  using assms
  by (simp add: transform_parsed_def shape_head_vars [OF assms(1)]
      shape_results_bindings [OF assms(1)] rows_loop_filled columns_loop_append comp_def)

lemma transform_result:
  "json_loads ext s = Inr sr \<Longrightarrow>
   fst (transform_sparql_results ext s w) = and_then (transform_parsed sr) (json_dumps ext)"
  by (simp add: transform_sparql_results_def Let_def)

subsection \<open>The translator on valid input\<close>

lemma valid_parts:
  "sparql_valid sr vs bs \<Longrightarrow> sparql_shape sr vs bs \<and> (\<forall>b \<in> set bs. bound_to_objects vs b)"
  by (simp add: sparql_valid_def list_all_iff)

lemma parsed_valid:
  assumes "sparql_valid sr vs bs"
  shows "transform_parsed sr =
         Inr (PDict [(PStr ''columns'', PList (map (\<lambda>v. column (PStr v)) vs)),
                     (PStr ''rows'', PList (map PDict (map (\<lambda>b. filled_row b vs []) bs)))])"
proof -
  have sh: "sparql_shape sr vs bs" and ob: "\<forall>b \<in> set bs. bound_to_objects vs b"
    using valid_parts [OF assms] by simp_all
  show ?thesis
    by (simp add: transform_parsed_filled [OF sh ob] comp_def)
qed

lemma translate_valid:
  assumes "json_loads ext s = Inr sr" "sparql_valid sr vs bs"
  shows "fst (transform_sparql_results ext s w) =
         json_dumps ext
           (PDict [(PStr ''columns'', PList (map (\<lambda>v. column (PStr v)) vs)),
                   (PStr ''rows'', PList (map PDict (map (\<lambda>b. filled_row b vs []) bs)))])"
  by (simp add: transform_result [OF assms(1)] parsed_valid [OF assms(2)])

lemma document_shape: "sparql_shape (sparql_document vs bs) vs bs"
  by (simp add: sparql_shape_def sparql_document_def json_path2_def)

lemma fixed_loads: "json_loads (fixed_externals t p d a) t = Inr p"
  by (simp add: fixed_externals_def)

lemma two_bindings_valid:
  "sparql_valid (sparql_document [''a'', ''b''] two_bindings) [''a'', ''b''] two_bindings"
  by (simp add: sparql_valid_def document_shape)
     (simp add: two_bindings_def bound_to_objects_def)

subsection \<open>Descriptors that are no objects\<close>

lemma non_object_value: "\<not> is_object x \<Longrightarrow> py_getitem x (PStr ''value'') = Inl TypeError"
  by (cases x) (simp_all add: seq_getitem_def)

lemma row_step_cases:
  "(\<exists>x. row_loop (PDict b) (PStr v # vars) row = row_loop (PDict b) vars (dict_set row (PStr v) x)) \<or>
   row_loop (PDict b) (PStr v # vars) row = Inl TypeError"
proof (cases "dict_get b (PStr v)")
  case None
  then have "row_loop (PDict b) (PStr v # vars) row =
             row_loop (PDict b) vars (dict_set row (PStr v) (PStr ''''))"
    by (simp add: py_setitem_def)
  then show ?thesis by blast
next
  case (Some d)
  show ?thesis
  proof (cases "py_getitem d (PStr ''value'')")
    case (Inl e)
    then have "e = KeyError \<or> e = TypeError" by (rule getitem_str_errors)
    then show ?thesis
    proof
      assume "e = KeyError"
      then have "row_loop (PDict b) (PStr v # vars) row =
                 row_loop (PDict b) vars (dict_set row (PStr v) (PStr ''''))"
        using Some Inl by (simp add: py_setitem_def)
      then show ?thesis by blast
    next
      assume "e = TypeError"
      then show ?thesis using Some Inl by simp
    qed
  next
    case (Inr x)
    then have "row_loop (PDict b) (PStr v # vars) row =
               row_loop (PDict b) vars (dict_set row (PStr v) x)"
      using Some by (simp add: py_setitem_def)
    then show ?thesis by blast
  qed
qed

lemma row_step_bad:
  "dict_get b (PStr v) = Some x \<Longrightarrow> \<not> is_object x \<Longrightarrow>
   row_loop (PDict b) (PStr v # vars) row = Inl TypeError"
  by (simp add: non_object_value)

lemma row_loop_dict_errors:
  "row_loop (PDict b) (map PStr vs) row = Inl e \<Longrightarrow> e = TypeError"
proof (induction vs arbitrary: row)
  case Nil
  then show ?case by simp
next
  case (Cons v vs)
  from row_step_cases [of b v "map PStr vs" row] show ?case
  proof
    assume "\<exists>x. row_loop (PDict b) (PStr v # map PStr vs) row =
                 row_loop (PDict b) (map PStr vs) (dict_set row (PStr v) x)"
    then obtain x where "row_loop (PDict b) (map PStr vs) (dict_set row (PStr v) x) = Inl e"
      using Cons.prems by auto
    then show ?thesis by (rule Cons.IH)
  next
    assume "row_loop (PDict b) (PStr v # map PStr vs) row = Inl TypeError"
    then show ?thesis using Cons.prems by simp
  qed
qed

lemma row_loop_bad:
  "v \<in> set vs \<Longrightarrow> dict_get b (PStr v) = Some x \<Longrightarrow> \<not> is_object x \<Longrightarrow>
   row_loop (PDict b) (map PStr vs) row = Inl TypeError"
proof (induction vs arbitrary: row)
  case Nil
  then show ?case by simp
next
  case (Cons u vs)
  show ?case
  proof (cases "u = v")
    case True
    then show ?thesis using row_step_bad [OF Cons.prems(2,3)] by simp
  next
    case False
    then have v: "v \<in> set vs" using Cons.prems(1) by simp
    from row_step_cases [of b u "map PStr vs" row] show ?thesis
    proof
      assume "\<exists>y. row_loop (PDict b) (PStr u # map PStr vs) row =
                   row_loop (PDict b) (map PStr vs) (dict_set row (PStr u) y)"
      then show ?thesis using Cons.IH [OF v Cons.prems(2,3)] by auto
    next
      assume "row_loop (PDict b) (PStr u # map PStr vs) row = Inl TypeError"
      then show ?thesis by simp
    qed
  qed
qed

lemma rows_loop_bad:
  assumes "head_vars sr = Inr (map PStr vs)" and "v \<in> set vs" and "\<not> is_object x"
  shows "i < length bs \<Longrightarrow> dict_get (bs ! i) (PStr v) = Some x \<Longrightarrow>
         rows_loop sr (map PDict bs) acc = Inl TypeError"
proof (induction bs arbitrary: i acc)
  case Nil
  then show ?case by simp
next
  case (Cons b bs)
  show ?case
  proof (cases "row_loop (PDict b) (map PStr vs) []")
    case (Inl e)
    then have "e = TypeError" by (rule row_loop_dict_errors)
    then show ?thesis using Inl assms(1) by simp
  next
    case (Inr row)
    have "i \<noteq> 0"
    proof
      assume "i = 0"
      then have "dict_get b (PStr v) = Some x" using Cons.prems(2) by simp
      from row_loop_bad [OF assms(2) this assms(3), of "[]"] Inr show False by simp
    qed
    then obtain j where j: "i = Suc j" by (cases i) auto
    then have "j < length bs" "dict_get (bs ! j) (PStr v) = Some x"
      using Cons.prems by simp_all
    then have "rows_loop sr (map PDict bs) (acc @ [PDict row]) = Inl TypeError"
      by (rule Cons.IH)
    then show ?thesis using Inr assms(1) by simp
  qed
qed

lemma parsed_bad:
  assumes "sparql_shape sr vs bs" "i < length bs" "v \<in> set vs"
    "dict_get (bs ! i) (PStr v) = Some x" "\<not> is_object x"
  shows "transform_parsed sr = Inl TypeError"
  using rows_loop_bad [OF shape_head_vars [OF assms(1)] assms(3) assms(5) assms(2) assms(4), of "[]"]
  by (simp add: transform_parsed_def shape_results_bindings [OF assms(1)])

lemma filled_row_length: "length (filled_row b vs []) = card (set vs)"
proof -
  have "length (filled_row b vs []) = length (map fst (filled_row b vs []))" by simp
  also have "\<dots> = card (set (map fst (filled_row b vs [])))"
    by (rule distinct_card [symmetric]) (simp add: filled_row_keys_distinct)
  also have "\<dots> = card (PStr ` set vs)"
    by (simp only: filled_row_keys_set) simp
  also have "\<dots> = card (set vs)"
    by (rule card_image) (simp add: inj_on_def)
  finally show ?thesis .
qed

subsection \<open>Missing keys\<close>

lemma head_vars_missing:
  assumes "json_path2 sr ''head'' ''vars'' = None"
  shows "head_vars sr = Inl KeyError \<or> head_vars sr = Inl TypeError"
  using path_missing [OF assms] by (auto simp: head_vars_def)

lemma results_bindings_missing:
  assumes "json_path2 sr ''results'' ''bindings'' = None"
  shows "results_bindings sr = Inl KeyError \<or> results_bindings sr = Inl TypeError"
  using path_missing [OF assms] by (auto simp: results_bindings_def)

lemma rows_loop_no_head:
  "head_vars sr = Inl e \<Longrightarrow> rows_loop sr bs acc = (if bs = [] then Inr acc else Inl e)"
  by (cases bs) simp_all

lemma parsed_no_results:
  "results_bindings sr = Inl e \<Longrightarrow> transform_parsed sr = Inl e"
  by (simp add: transform_parsed_def)

lemma parsed_no_head:
  assumes "head_vars sr = Inl e"
  shows "transform_parsed sr = Inl e \<or> (\<exists>e'. results_bindings sr = Inl e' \<and> transform_parsed sr = Inl e')"
proof (cases "results_bindings sr")
  case (Inl e')
  then show ?thesis by (simp add: parsed_no_results)
next
  case (Inr bs)
  then show ?thesis
    by (simp add: transform_parsed_def rows_loop_no_head [OF assms] assms)
qed

lemma results_bindings_errors:
  assumes "results_bindings sr = Inl e"
  shows "e = KeyError \<or> e = TypeError"
proof (cases "json_path2 sr ''results'' ''bindings''")
  case None
  then show ?thesis using results_bindings_missing [OF None] assms by auto
next
  case (Some x)
  then have "results_bindings sr = py_iter x"
    by (simp add: results_bindings_def path_present)
  then show ?thesis using assms by (cases x) auto
qed

lemma parsed_missing:
  assumes "json_path2 sr ''head'' ''vars'' = None \<or> json_path2 sr ''results'' ''bindings'' = None"
  shows "transform_parsed sr = Inl KeyError \<or> transform_parsed sr = Inl TypeError"
  using assms
proof
  assume "json_path2 sr ''results'' ''bindings'' = None"
  from results_bindings_missing [OF this] show ?thesis
    by (auto simp: parsed_no_results)
next
  assume "json_path2 sr ''head'' ''vars'' = None"
  from head_vars_missing [OF this] obtain e where
    e: "head_vars sr = Inl e" "e = KeyError \<or> e = TypeError" by auto
  from parsed_no_head [OF e(1)] show ?thesis
  proof
    assume "transform_parsed sr = Inl e"
    then show ?thesis using e(2) by auto
  next
    assume "\<exists>e'. results_bindings sr = Inl e' \<and> transform_parsed sr = Inl e'"
    then obtain e' where "results_bindings sr = Inl e'" "transform_parsed sr = Inl e'" by auto
    then show ?thesis using results_bindings_errors [of sr e'] by auto
  qed
qed

subsection \<open>Staging\<close>

lemma setup_key_environ:
  assumes "setup_key c k w = (Inr (), w')"
  shows "environ w' = (environ w)(k := staged c k) \<and> stageable (configuration_get c k)"
proof (cases "configuration_get c k")
  case (PStr s)
  then show ?thesis using assms
    by (auto simp: setup_key_def environ_setitem_def staged_def logger_info_def Let_def
        split: if_splits)
qed (use assms in \<open>auto simp: setup_key_def environ_setitem_def staged_def Let_def split: if_splits\<close>)

lemma setup_loop_environ:
  "setup_loop c ks w = (Inr (), w') \<Longrightarrow>
   environ w' k = (if k \<in> set ks then staged c k else environ w k) \<and>
   (k \<in> set ks \<longrightarrow> stageable (configuration_get c k))"
proof (induction ks arbitrary: w)
  case Nil
  then show ?case by simp
next
  case (Cons a ks)
  obtain r w1 where s: "setup_key c a w = (r, w1)" by (cases "setup_key c a w")
  with Cons.prems have r: "r = Inr ()" and rest: "setup_loop c ks w1 = (Inr (), w')"
    by (cases r; simp)+
  from setup_key_environ [OF s [unfolded r]]
  have e: "environ w1 = (environ w)(a := staged c a)" and st: "stageable (configuration_get c a)"
    by simp_all
  from Cons.IH [OF rest] e st show ?case by auto
qed

lemma setup_key_succeeds:
  "stageable (configuration_get c k) \<Longrightarrow> fst (setup_key c k w) = Inr ()"
  by (cases "configuration_get c k")
     (simp_all add: setup_key_def environ_setitem_def Let_def)

lemma setup_loop_succeeds:
  "\<forall>k \<in> set ks. stageable (configuration_get c k) \<Longrightarrow> fst (setup_loop c ks w) = Inr ()"
proof (induction ks arbitrary: w)
  case Nil
  then show ?case by simp
next
  case (Cons a ks)
  then have "fst (setup_key c a w) = Inr ()" by (simp add: setup_key_succeeds)
  then obtain w1 where "setup_key c a w = (Inr (), w1)" by (cases "setup_key c a w") auto
  then show ?case using Cons by simp
qed

lemma setup_environment_succeeds:
  "\<forall>k \<in> set KNOWN_CONFIG_KEYS. stageable (configuration_get c k) \<Longrightarrow>
   setup_environment c w = (Inr (), snd (setup_environment c w))"
  using setup_loop_succeeds [of KNOWN_CONFIG_KEYS c w]
  by (simp add: setup_environment_def prod_eq_iff)

lemma uri_configuration_stageable:
  "\<forall>k \<in> set KNOWN_CONFIG_KEYS. stageable (configuration_get uri_configuration k)"
  by (simp add: KNOWN_CONFIG_KEYS_def configuration_get_def uri_configuration_def)

subsection \<open>Running a query\<close>

lemma noop_parsed_result: "transform_parsed noop_parsed = Inr noop_expected"
  by (simp add: noop_parsed_def noop_expected_def transform_parsed_def results_bindings_def
      head_vars_def py_setitem_def column_def)

lemma run_query_staged:
  assumes "encode_utf8 ext q = Inr qb"
    and "setup_environment c (logger_info ''about to execute query: {}'' [qb] w) = (Inr (), w2)"
  shows "run_query ext c q w =
           (case get_results ext qb (environ w2) of
              Inl e \<Rightarrow> (Inl e, w2)
            | Inr raw \<Rightarrow>
                (case encode_utf8 ext raw of
                   Inl e \<Rightarrow> (Inl e, w2)
                 | Inr encoded \<Rightarrow>
                     (case transform_sparql_results ext encoded w2 of
                        (Inl e, w3) \<Rightarrow> (Inl e, w3)
                      | (Inr data, w3) \<Rightarrow> (Inr (data, None), w3))))"
  using assms by (simp add: run_query_def Let_def)

lemma run_query_returns:
  assumes "run_query ext c q w = (Inr r, w')"
  shows "snd r = None \<and>
         (\<exists>qb w2 raw enc.
            encode_utf8 ext q = Inr qb \<and>
            setup_environment c (logger_info ''about to execute query: {}'' [qb] w) = (Inr (), w2) \<and>
            get_results ext qb (environ w2) = Inr raw \<and>
            encode_utf8 ext raw = Inr enc \<and>
            transform_sparql_results ext enc w2 = (Inr (fst r), w'))"
proof -
  obtain qb where qb: "encode_utf8 ext q = Inr qb"
    using assms by (cases "encode_utf8 ext q") (simp_all add: run_query_def)
  obtain u w2 where su: "setup_environment c (logger_info ''about to execute query: {}'' [qb] w) = (u, w2)"
    by (cases "setup_environment c (logger_info ''about to execute query: {}'' [qb] w)")
  have u: "u = Inr ()"
    using assms qb su by (cases u) (simp_all add: run_query_def Let_def)
  note st = su [unfolded u]
  note rq = run_query_staged [OF qb st]
  obtain raw where raw: "get_results ext qb (environ w2) = Inr raw"
    using assms rq by (cases "get_results ext qb (environ w2)") simp_all
  obtain enc where enc: "encode_utf8 ext raw = Inr enc"
    using assms rq raw by (cases "encode_utf8 ext raw") simp_all
  obtain t w3 where t: "transform_sparql_results ext enc w2 = (t, w3)"
    by (cases "transform_sparql_results ext enc w2")
  obtain data where data: "t = Inr data"
    using assms rq raw enc t by (cases t) simp_all
  have "r = (data, None)" "w' = w3"
    using assms rq raw enc t data by simp_all
  then show ?thesis using qb st raw enc t data by auto
qed

subsection \<open>The translator on the heap\<close>

lemma repr_extend: "repr h v p \<Longrightarrow> repr (h @ r) v p"
proof (induction rule: repr.induct)
  case (repr_imm v p)
  then show ?case by (rule repr.repr_imm)
next
  case (repr_list a xs ps)
  have "list_all2 (repr (h @ r)) xs ps"
    using repr_list(3) by (rule list_all2_mono) simp
  then show ?case using repr_list(1,2) by (intro repr.repr_list) (simp_all add: nth_append)
next
  case (repr_dict a d dp)
  have "list_all2 (\<lambda>e ep. of_imm (fst e) = Some (fst ep) \<and> repr (h @ r) (snd e) (snd ep)) d dp"
    using repr_dict(3) by (rule list_all2_mono) simp
  then show ?case using repr_dict(1,2) by (intro repr.repr_dict) (simp_all add: nth_append)
qed

lemma of_imm_hashable: "of_imm v = Some p \<Longrightarrow> py_hashable p"
  by (cases v) auto

lemma repr_imm_iff: "of_imm v = Some q \<Longrightarrow> repr h v p \<longleftrightarrow> p = q"
  by (auto elim: repr.cases intro: repr.repr_imm)

lemma repr_str: "repr h (HStr s) (PStr s)"
  by (simp add: repr.repr_imm)

lemma repr_ref_hashable: "repr h (HRef a) p \<Longrightarrow> \<not> py_hashable p"
  by (auto elim: repr.cases)

lemma repr_ref_index: "repr h (HRef a) p \<Longrightarrow> py_index p = None"
  by (auto elim: repr.cases)

lemma repr_key:
  "repr h k kp \<Longrightarrow> (of_imm k = None \<and> \<not> py_hashable kp \<and> py_index kp = None) \<or> of_imm k = Some kp"
  by (cases k) (auto simp: repr_imm_iff dest: repr_ref_hashable repr_ref_index)

lemma h_key_eq_imm:
  "of_imm a = Some x \<Longrightarrow> of_imm b = Some y \<Longrightarrow> h_key_eq a b = py_key_eq x y"
  by (simp add: h_key_eq_def)

lemma dict_get_rel:
  "entries_rel h d dp \<Longrightarrow> of_imm k = Some kp \<Longrightarrow>
   rel_option (repr h) (h_dict_get d k) (dict_get dp kp)"
  unfolding entries_rel_def
  by (induction rule: list_all2_induct) (auto simp: h_key_eq_imm)

lemma dict_set_rel:
  "entries_rel h d dp \<Longrightarrow> of_imm k = Some kp \<Longrightarrow> repr h x xp \<Longrightarrow>
   entries_rel h (h_dict_set d k x) (dict_set dp kp xp)"
  unfolding entries_rel_def
  by (induction rule: list_all2_induct) (auto simp: h_key_eq_imm)

lemma seq_getitem_rel:
  "list_all2 R xs ps \<Longrightarrow> rel_sum (=) R (seq_getitem xs k) (seq_getitem ps k)"
  by (auto simp: seq_getitem_def list_all2_lengthD list_all2_nthD split: option.splits)

lemma and_then_rel:
  assumes "rel_sum (=) R a b" and "\<And>x y. R x y \<Longrightarrow> rel_sum (=) S (f x) (g y)"
  shows "rel_sum (=) S (and_then a f) (and_then b g)"
  using assms by (cases a; cases b) auto

lemma lookup_prefix: "a < length h \<Longrightarrow> h_lookup (h @ r) a = Inr (h ! a)"
  by (simp add: h_lookup_def nth_append)

lemma getitem_rel:
  assumes "repr h x p" and "repr h k kp"
  shows "rel_sum (=) (repr h) (h_getitem (h @ r) x k) (py_getitem p kp)"
  using assms(1)
proof (cases rule: repr.cases)
  case repr_imm
  show ?thesis
  proof (cases x)
    case (HStr s)
    then have p: "p = PStr s" using repr_imm by simp
    from repr_key [OF assms(2)] show ?thesis
    proof
      assume "of_imm k = None \<and> \<not> py_hashable kp \<and> py_index kp = None"
      then show ?thesis by (simp add: h_getitem_def HStr p seq_getitem_def)
    next
      assume "of_imm k = Some kp"
      then show ?thesis
        by (cases "seq_getitem s kp") (simp_all add: h_getitem_def HStr p repr.repr_imm)
    qed
  qed (use repr_imm in \<open>auto simp: h_getitem_def\<close>)
next
  case (repr_list a xs ps)
  from repr_key [OF assms(2)] show ?thesis
  proof
    assume "of_imm k = None \<and> \<not> py_hashable kp \<and> py_index kp = None"
    then show ?thesis using repr_list
      by (simp add: h_getitem_def lookup_prefix seq_getitem_def)
  next
    assume "of_imm k = Some kp"
    then show ?thesis using repr_list seq_getitem_rel [OF repr_list(5), of kp]
      by (simp add: h_getitem_def lookup_prefix)
  qed
next
  case (repr_dict a d dp)
  from repr_key [OF assms(2)] show ?thesis
  proof
    assume "of_imm k = None \<and> \<not> py_hashable kp \<and> py_index kp = None"
    then show ?thesis using repr_dict
      by (simp add: h_getitem_def lookup_prefix)
  next
    assume k: "of_imm k = Some kp"
    have "rel_option (repr h) (h_dict_get d k) (dict_get dp kp)"
      using repr_dict(5) k by (intro dict_get_rel) (simp_all add: entries_rel_def)
    then show ?thesis using repr_dict k of_imm_hashable [OF k]
      by (cases "h_dict_get d k"; cases "dict_get dp kp")
         (simp_all add: h_getitem_def lookup_prefix)
  qed
qed

lemma iter_rel:
  assumes "repr h x p"
  shows "rel_sum (=) (list_all2 (repr h)) (h_iter (h @ r) x) (py_iter p)"
  using assms
proof (cases rule: repr.cases)
  case repr_imm
  then show ?thesis
    by (cases x) (auto simp: h_iter_def list_all2_conv_all_nth repr_str)
next
  case (repr_list a xs ps)
  then show ?thesis by (simp add: h_iter_def lookup_prefix)
next
  case (repr_dict a d dp)
  have "list_all2 (repr h) (map fst d) (map fst dp)"
    using repr_dict(5)
    by (induction rule: list_all2_induct) (auto intro: repr.repr_imm)
  then show ?thesis using repr_dict by (simp add: h_iter_def lookup_prefix)
qed

lemma path_iter_rel:
  assumes "repr h sr p"
  shows "rel_sum (=) (list_all2 (repr h))
           (and_then (and_then (h_getitem (h @ r) sr (HStr a)) (\<lambda>x. h_getitem (h @ r) x (HStr b)))
                     (h_iter (h @ r)))
           (and_then (and_then (py_getitem p (PStr a)) (\<lambda>x. py_getitem x (PStr b))) py_iter)"
proof -
  have 1: "rel_sum (=) (repr h) (h_getitem (h @ r) sr (HStr a)) (py_getitem p (PStr a))"
    by (rule getitem_rel [OF assms repr_str])
  have 2: "rel_sum (=) (repr h)
             (and_then (h_getitem (h @ r) sr (HStr a)) (\<lambda>x. h_getitem (h @ r) x (HStr b)))
             (and_then (py_getitem p (PStr a)) (\<lambda>x. py_getitem x (PStr b)))"
    by (rule and_then_rel [OF 1]) (rule getitem_rel [OF _ repr_str])
  show ?thesis
    by (rule and_then_rel [OF 2]) (rule iter_rel)
qed

lemma head_vars_rel:
  "repr h sr p \<Longrightarrow> rel_sum (=) (list_all2 (repr h)) (h_head_vars (h @ r) sr) (head_vars p)"
  unfolding h_head_vars_def head_vars_def by (rule path_iter_rel)

lemma results_bindings_rel:
  "repr h sr p \<Longrightarrow>
   rel_sum (=) (list_all2 (repr h)) (h_results_bindings (h @ r) sr) (results_bindings p)"
  unfolding h_results_bindings_def results_bindings_def by (rule path_iter_rel)

lemma store_last:
  "of_imm k = Some kp \<Longrightarrow>
   h_dict_store (h @ mid @ [ODict d]) (length h + length mid) k x =
     Inr (h @ mid @ [ODict (h_dict_set d k x)])"
  by (simp add: h_dict_store_def h_lookup_def nth_append list_update_append)

lemma store_rel:
  assumes "repr h var vp" and "entries_rel h d dp" and "repr h x xp"
  shows "rel_sum (=) (\<lambda>H' dp'. \<exists>d'. H' = h @ mid @ [ODict d'] \<and> entries_rel h d' dp')
           (h_dict_store (h @ mid @ [ODict d]) (length h + length mid) var x)
           (py_setitem dp vp xp)"
  using repr_key [OF assms(1)]
proof
  assume "of_imm var = None \<and> \<not> py_hashable vp \<and> py_index vp = None"
  then show ?thesis by (simp add: h_dict_store_def py_setitem_def)
next
  assume k: "of_imm var = Some vp"
  then show ?thesis
    using dict_set_rel [OF assms(2) k assms(3)] of_imm_hashable [OF k]
    by (simp add: store_last py_setitem_def)
qed

lemma cell_rel:
  assumes "repr h srow bp" and "repr h var vp" and "entries_rel h d dp"
  shows "rel_sum (=) (\<lambda>H' dp'. \<exists>d'. H' = h @ mid @ [ODict d'] \<and> entries_rel h d' dp')
           (and_then (and_then (h_getitem (h @ mid @ [ODict d]) srow var)
                               (\<lambda>x. h_getitem (h @ mid @ [ODict d]) x (HStr ''value'')))
                     (\<lambda>x. h_dict_store (h @ mid @ [ODict d]) (length h + length mid) var x))
           (and_then (and_then (py_getitem bp vp) (\<lambda>x. py_getitem x (PStr ''value'')))
                     (\<lambda>x. py_setitem dp vp x))"
proof -
  have 1: "rel_sum (=) (repr h) (h_getitem (h @ mid @ [ODict d]) srow var) (py_getitem bp vp)"
    by (rule getitem_rel [OF assms(1,2)])
  have 2: "rel_sum (=) (repr h)
             (and_then (h_getitem (h @ mid @ [ODict d]) srow var)
                       (\<lambda>x. h_getitem (h @ mid @ [ODict d]) x (HStr ''value'')))
             (and_then (py_getitem bp vp) (\<lambda>x. py_getitem x (PStr ''value'')))"
    by (rule and_then_rel [OF 1]) (rule getitem_rel [OF _ repr_str])
  show ?thesis
    by (rule and_then_rel [OF 2]) (rule store_rel [OF assms(2,3)])
qed

lemma row_loop_rel:
  assumes "repr h srow bp"
  shows "list_all2 (repr h) vars vps \<Longrightarrow> entries_rel h d dp \<Longrightarrow>
    \<exists>d'. snd (h_row_loop srow vars (length h + length mid) (h @ mid @ [ODict d])) = h @ mid @ [ODict d'] \<and>
         rel_sum (=) (\<lambda>_ dp'. entries_rel h d' dp')
           (fst (h_row_loop srow vars (length h + length mid) (h @ mid @ [ODict d])))
           (row_loop bp vps dp)"
proof (induction arbitrary: d dp rule: list_all2_induct)
  case Nil
  then show ?case by simp
next
  case (Cons var vars vp vps)
  let ?H = "h @ mid @ [ODict d]"
  let ?C = "and_then (and_then (h_getitem ?H srow var) (\<lambda>x. h_getitem ?H x (HStr ''value'')))
                     (\<lambda>x. h_dict_store ?H (length h + length mid) var x)"
  let ?P = "and_then (and_then (py_getitem bp vp) (\<lambda>x. py_getitem x (PStr ''value'')))
                     (\<lambda>x. py_setitem dp vp x)"
  have rel: "rel_sum (=) (\<lambda>H' dp'. \<exists>d'. H' = h @ mid @ [ODict d'] \<and> entries_rel h d' dp') ?C ?P"
    by (rule cell_rel [OF assms Cons.hyps(1) Cons.prems])
  show ?case
  proof (cases ?C)
    case (Inr H')
    then obtain dp1 d1 where P: "?P = Inr dp1" and H': "H' = h @ mid @ [ODict d1]"
      and e1: "entries_rel h d1 dp1"
      using rel by (cases ?P) auto
    from Cons.IH [OF e1] show ?thesis
      by (simp add: Inr P H')
  next
    case (Inl e)
    then have P: "?P = Inl e" using rel by (cases ?P) auto
    show ?thesis
    proof (cases "e = KeyError")
      case True
      have srel: "rel_sum (=) (\<lambda>H' dp'. \<exists>d'. H' = h @ mid @ [ODict d'] \<and> entries_rel h d' dp')
                    (h_dict_store ?H (length h + length mid) var (HStr ''''))
                    (py_setitem dp vp (PStr ''''))"
        by (rule store_rel [OF Cons.hyps(1) Cons.prems repr_str])
      show ?thesis
      proof (cases "h_dict_store ?H (length h + length mid) var (HStr '''')")
        case (Inr H')
        then obtain dp1 d1 where S: "py_setitem dp vp (PStr '''') = Inr dp1"
          and H': "H' = h @ mid @ [ODict d1]" and e1: "entries_rel h d1 dp1"
          using srel by (cases "py_setitem dp vp (PStr '''')") auto
        from Cons.IH [OF e1] show ?thesis
          using Inl P True Inr S H' by simp
      next
        case (Inl e')
        then have S: "py_setitem dp vp (PStr '''') = Inl e'"
          using srel by (cases "py_setitem dp vp (PStr '''')") auto
        show ?thesis
          using \<open>?C = Inl e\<close> P True Inl S by simp
      qed
    next
      case False
      then show ?thesis using Inl P by (cases e) simp_all
    qed
  qed
qed

lemma refs_inv_empty: "refs_inv h base [] [] []"
  by (simp add: refs_inv_def)

lemma refs_inv_grow:
  assumes "refs_inv h base cells rs rps" and "entries_rel h d dp"
  shows "refs_inv h base (cells @ [ODict d]) (rs @ [HRef (base + length cells)]) (rps @ [PDict dp])"
proof -
  have "list_all2 (\<lambda>r rp. \<exists>i d' dp'. r = HRef (base + i) \<and> i < length (cells @ [ODict d]) \<and>
                     (cells @ [ODict d]) ! i = ODict d' \<and> rp = PDict dp' \<and> entries_rel h d' dp') rs rps"
    using assms(1) unfolding refs_inv_def
    by (rule list_all2_mono) (auto simp: nth_append)
  moreover have "\<exists>i d' dp'. HRef (base + length cells) = HRef (base + i) \<and>
                   i < length (cells @ [ODict d]) \<and> (cells @ [ODict d]) ! i = ODict d' \<and>
                   PDict dp = PDict dp' \<and> entries_rel h d' dp'"
    using assms(2) by (intro exI [where x = "length cells"] exI [where x = d] exI [where x = dp]) simp
  ultimately show ?thesis
    unfolding refs_inv_def by (intro list_all2_appendI) simp_all
qed

lemma refs_repr:
  assumes "refs_inv h (Suc (length h + length m)) cells rs rps"
  shows "repr (h @ m @ OList rs # cells @ tl0) (HRef (length h + length m)) (PList rps)"
proof (rule repr.repr_list)
  let ?H = "h @ m @ OList rs # cells @ tl0"
  show "length h + length m < length ?H" by simp
  show "?H ! (length h + length m) = OList rs" by (simp add: nth_append)
  show "list_all2 (repr ?H) rs rps"
    using assms unfolding refs_inv_def
  proof (rule list_all2_mono)
    fix r rp
    assume "\<exists>i d dp. r = HRef (Suc (length h + length m) + i) \<and> i < length cells \<and>
                      cells ! i = ODict d \<and> rp = PDict dp \<and> entries_rel h d dp"
    then obtain i d dp where r: "r = HRef (Suc (length h + length m) + i)" and i: "i < length cells"
      and c: "cells ! i = ODict d" and rp: "rp = PDict dp" and e: "entries_rel h d dp"
      by blast
    have "list_all2 (\<lambda>e ep. of_imm (fst e) = Some (fst ep) \<and> repr ?H (snd e) (snd ep)) d dp"
      using e unfolding entries_rel_def
      by (rule list_all2_mono) (auto intro: repr_extend)
    moreover have "?H ! (Suc (length h + length m) + i) = ODict d"
      using i c by (simp add: nth_append)
    moreover have "Suc (length h + length m) + i < length ?H" using i by simp
    ultimately show "repr ?H r rp" unfolding r rp by (intro repr.repr_dict)
  qed
qed

lemma append_at_list:
  "h_list_append (h @ m @ OList rs # cells) (length h + length m) v =
     Inr (h @ m @ OList (rs @ [v]) # cells)"
  by (simp add: h_list_append_def h_lookup_def nth_append list_update_append)

lemma rows_loop_rel:
  assumes "repr h sr p"
  shows "list_all2 (repr h) bs bps \<Longrightarrow> refs_inv h (Suc (length h)) cells rs rps \<Longrightarrow>
    \<exists>rest. snd (h_rows_loop sr bs (length h) (h @ OList rs # cells)) = h @ rest \<and>
      (case rows_loop p bps rps of
         Inl e \<Rightarrow> fst (h_rows_loop sr bs (length h) (h @ OList rs # cells)) = Inl e
       | Inr rps' \<Rightarrow>
           fst (h_rows_loop sr bs (length h) (h @ OList rs # cells)) = Inr () \<and>
           (\<exists>rs' cells'. rest = OList rs' # cells' \<and> refs_inv h (Suc (length h)) cells' rs' rps'))"
proof (induction arbitrary: cells rs rps rule: list_all2_induct)
  case Nil
  then show ?case by simp
next
  case (Cons b bs bp bps)
  let ?mid = "OList rs # cells"
  let ?H1 = "h @ ?mid @ [ODict []]"
  have alloc: "h_alloc (h @ OList rs # cells) (ODict []) = (length h + length ?mid, ?H1)"
    by (simp add: h_alloc_def)
  have hv: "rel_sum (=) (list_all2 (repr h)) (h_head_vars ?H1 sr) (head_vars p)"
    by (rule head_vars_rel [OF assms])
  show ?case
  proof (cases "head_vars p")
    case (Inl e)
    then have "h_head_vars ?H1 sr = Inl e" using hv by (cases "h_head_vars ?H1 sr") auto
    then show ?thesis using Inl alloc by simp
  next
    case (Inr vps)
    then obtain vars where vars: "h_head_vars ?H1 sr = Inr vars" and vrel: "list_all2 (repr h) vars vps"
      using hv by (cases "h_head_vars ?H1 sr") auto
    have e0: "entries_rel h [] []" by (simp add: entries_rel_def)
    from row_loop_rel [OF Cons.hyps(1) vrel e0, of ?mid]
    obtain d' where
      s: "snd (h_row_loop b vars (length h + length ?mid) ?H1) = h @ ?mid @ [ODict d']" and
      f: "rel_sum (=) (\<lambda>_ dp'. entries_rel h d' dp')
            (fst (h_row_loop b vars (length h + length ?mid) ?H1)) (row_loop bp vps [])"
      by blast
    show ?thesis
    proof (cases "row_loop bp vps []")
      case (Inl e)
      then have "fst (h_row_loop b vars (length h + length ?mid) ?H1) = Inl e"
        using f by (cases "fst (h_row_loop b vars (length h + length ?mid) ?H1)") auto
      with s have "h_row_loop b vars (length h + length ?mid) ?H1 = (Inl e, h @ ?mid @ [ODict d'])"
        by (simp add: prod_eq_iff)
      then show ?thesis using Inl \<open>head_vars p = Inr vps\<close> vars alloc by simp
    next
      case (Inr dp')
      then have "fst (h_row_loop b vars (length h + length ?mid) ?H1) = Inr ()"
        and e: "entries_rel h d' dp'"
        using f by (cases "fst (h_row_loop b vars (length h + length ?mid) ?H1)"; auto)+
      with s have run: "h_row_loop b vars (length h + length ?mid) ?H1 = (Inr (), h @ ?mid @ [ODict d'])"
        by (simp add: prod_eq_iff)
      have app: "h_list_append (h @ ?mid @ [ODict d']) (length h) (HRef (length h + length ?mid)) =
                   Inr (h @ OList (rs @ [HRef (length h + length ?mid)]) # (cells @ [ODict d']))"
        using append_at_list [of h "[]" rs "cells @ [ODict d']"] by simp
      have inv: "refs_inv h (Suc (length h)) (cells @ [ODict d'])
                   (rs @ [HRef (length h + length ?mid)]) (rps @ [PDict dp'])"
        using refs_inv_grow [OF Cons.prems e] by simp
      have step: "h_rows_loop sr (b # bs) (length h) (h @ OList rs # cells) =
                  h_rows_loop sr bs (length h)
                    (h @ OList (rs @ [HRef (length h + length ?mid)]) # (cells @ [ODict d']))"
        using vars alloc run app by simp
      have pstep: "rows_loop p (bp # bps) rps = rows_loop p bps (rps @ [PDict dp'])"
        using Inr \<open>head_vars p = Inr vps\<close> by simp
      from Cons.IH [OF inv] show ?thesis
        unfolding step pstep .
    qed
  qed
qed

lemma columns_loop_rel:
  "list_all2 (repr h) vars vps \<Longrightarrow> refs_inv h (Suc (length h + length m)) cells cs cps \<Longrightarrow>
   \<exists>cs' cells'.
      h_columns_loop vars (length h + length m) (h @ m @ OList cs # cells) =
        (Inr (), h @ m @ OList cs' # cells') \<and>
      refs_inv h (Suc (length h + length m)) cells' cs' (columns_loop vps cps)"
proof (induction arbitrary: cells cs cps rule: list_all2_induct)
  case Nil
  then show ?case by auto
next
  case (Cons var vars vp vps)
  have alloc: "h_alloc (h @ m @ OList cs # cells) (h_column var) =
                 (Suc (length h + length m) + length cells, h @ m @ OList cs # (cells @ [h_column var]))"
    by (simp add: h_alloc_def)
  have app: "h_list_append (h @ m @ OList cs # (cells @ [h_column var])) (length h + length m)
               (HRef (Suc (length h + length m) + length cells)) =
             Inr (h @ m @ OList (cs @ [HRef (Suc (length h + length m) + length cells)]) #
                    (cells @ [h_column var]))"
    by (rule append_at_list)
  have e: "entries_rel h
             [(HStr ''name'', var), (HStr ''friendly_name'', var), (HStr ''type'', HStr ''string'')]
             [(PStr ''name'', vp), (PStr ''friendly_name'', vp), (PStr ''type'', PStr ''string'')]"
    unfolding entries_rel_def using Cons.hyps(1) by (simp add: repr_str)
  have inv: "refs_inv h (Suc (length h + length m)) (cells @ [h_column var])
               (cs @ [HRef (Suc (length h + length m) + length cells)]) (cps @ [column vp])"
    using refs_inv_grow [OF Cons.prems e] by (simp add: h_column_def column_def)
  from Cons.IH [OF inv] show ?case
    using alloc app by simp
qed

lemma transform_refines:
  assumes "repr h sr p"
  shows "\<exists>rest. snd (h_transform sr h) = h @ rest \<and>
           rel_sum (=) (repr (h @ rest)) (fst (h_transform sr h)) (transform_parsed p)"
proof -
  let ?H1 = "h @ [OList []]"
  have alloc1: "h_alloc h (OList []) = (length h, ?H1)" by (simp add: h_alloc_def)
  have rb: "rel_sum (=) (list_all2 (repr h)) (h_results_bindings ?H1 sr) (results_bindings p)"
    by (rule results_bindings_rel [OF assms])
  show ?thesis
  proof (cases "results_bindings p")
    case (Inl e)
    then have "h_results_bindings ?H1 sr = Inl e"
      using rb by (cases "h_results_bindings ?H1 sr") auto
    then show ?thesis using Inl alloc1
      by (simp add: h_transform_def transform_parsed_def)
  next
    case (Inr bps)
    then obtain bs where bs: "h_results_bindings ?H1 sr = Inr bs" and brel: "list_all2 (repr h) bs bps"
      using rb by (cases "h_results_bindings ?H1 sr") auto
    from rows_loop_rel [OF assms brel refs_inv_empty]
    obtain rest where
      s: "snd (h_rows_loop sr bs (length h) ?H1) = h @ rest" and
      f: "case rows_loop p bps [] of
            Inl e \<Rightarrow> fst (h_rows_loop sr bs (length h) ?H1) = Inl e
          | Inr rps' \<Rightarrow>
              fst (h_rows_loop sr bs (length h) ?H1) = Inr () \<and>
              (\<exists>rs' cells'. rest = OList rs' # cells' \<and> refs_inv h (Suc (length h)) cells' rs' rps')"
      by auto
    show ?thesis
    proof (cases "rows_loop p bps []")
      case (Inl e)
      then have "h_rows_loop sr bs (length h) ?H1 = (Inl e, h @ rest)"
        using s f by (simp add: prod_eq_iff)
      then show ?thesis using Inl \<open>results_bindings p = Inr bps\<close> bs alloc1
        by (simp add: h_transform_def transform_parsed_def)
    next
      case (Inr rps)
      then obtain rs cells where
        run: "h_rows_loop sr bs (length h) ?H1 = (Inr (), h @ OList rs # cells)" and
        rinv: "refs_inv h (Suc (length h)) cells rs rps"
        using s f by (auto simp: prod_eq_iff)
      let ?m = "OList rs # cells"
      let ?H3 = "h @ ?m @ [OList []]"
      have alloc3: "h_alloc (h @ OList rs # cells) (OList []) = (length h + length ?m, ?H3)"
        by (simp add: h_alloc_def)
      have hv: "rel_sum (=) (list_all2 (repr h)) (h_head_vars ?H3 sr) (head_vars p)"
        by (rule head_vars_rel [OF assms])
      show ?thesis
      proof (cases "head_vars p")
        case (Inl e)
        then have "h_head_vars ?H3 sr = Inl e" using hv by (cases "h_head_vars ?H3 sr") auto
        then show ?thesis
          using Inl \<open>rows_loop p bps [] = Inr rps\<close> \<open>results_bindings p = Inr bps\<close> bs alloc1 run alloc3
          by (simp add: h_transform_def transform_parsed_def)
      next
        case (Inr vps)
        then obtain vars where vars: "h_head_vars ?H3 sr = Inr vars"
          and vrel: "list_all2 (repr h) vars vps"
          using hv by (cases "h_head_vars ?H3 sr") auto
        from columns_loop_rel [OF vrel refs_inv_empty, of ?m]
        obtain cs ccells where
          crun: "h_columns_loop vars (length h + length ?m) (h @ ?m @ OList [] # []) =
                   (Inr (), h @ ?m @ OList cs # ccells)" and
          cinv: "refs_inv h (Suc (length h + length ?m)) ccells cs (columns_loop vps [])"
          by blast
        let ?out = "ODict [(HStr ''columns'', HRef (length h + length ?m)), (HStr ''rows'', HRef (length h))]"
        let ?H5 = "h @ ?m @ OList cs # ccells @ [?out]"
        have alloc5: "h_alloc (h @ ?m @ OList cs # ccells) ?out =
                        (length h + length ?m + Suc (length ccells), ?H5)"
          by (simp add: h_alloc_def)
        have res: "h_transform sr h = (Inr (HRef (length h + length ?m + Suc (length ccells))), ?H5)"
          using bs alloc1 run alloc3 vars crun alloc5
          by (simp add: h_transform_def)
        have pres: "transform_parsed p =
                      Inr (PDict [(PStr ''columns'', PList (columns_loop vps [])),
                                  (PStr ''rows'', PList rps)])"
          using Inr \<open>rows_loop p bps [] = Inr rps\<close> \<open>results_bindings p = Inr bps\<close>
          by (simp add: transform_parsed_def)
        have rc: "repr ?H5 (HRef (length h + length ?m)) (PList (columns_loop vps []))"
          using refs_repr [OF cinv, of "[?out]"] by simp
        have rr: "repr ?H5 (HRef (length h)) (PList rps)"
          using refs_repr [of h "[]" cells rs rps "OList cs # ccells @ [?out]"] rinv by simp
        have "repr ?H5 (HRef (length h + length ?m + Suc (length ccells)))
                (PDict [(PStr ''columns'', PList (columns_loop vps [])), (PStr ''rows'', PList rps)])"
        proof (rule repr.repr_dict)
          show "length h + length ?m + Suc (length ccells) < length ?H5" by simp
          show "?H5 ! (length h + length ?m + Suc (length ccells)) = ?out"
            by (simp add: nth_append)
          show "list_all2 (\<lambda>e ep. of_imm (fst e) = Some (fst ep) \<and> repr ?H5 (snd e) (snd ep))
                  [(HStr ''columns'', HRef (length h + length ?m)), (HStr ''rows'', HRef (length h))]
                  [(PStr ''columns'', PList (columns_loop vps [])), (PStr ''rows'', PList rps)]"
            using rc rr by simp
        qed
        then show ?thesis using res pres by (intro exI [where x = "?m @ OList cs # ccells @ [?out]"]) simp
      qed
    qed
  qed
qed

lemma heap_translator_refines:
  assumes "library_implements hx ext"
  shows "fst (h_transform_sparql_results hx s w h) = fst (transform_sparql_results ext s w)"
    and "fst (snd (h_transform_sparql_results hx s w h)) = snd (transform_sparql_results ext s w)"
    and "\<exists>new. snd (snd (h_transform_sparql_results hx s w h)) = h @ new"
proof -
  obtain new where
    l1: "snd (h_json_loads hx s h) = h @ new" and
    l2: "rel_sum (=) (repr (h @ new)) (fst (h_json_loads hx s h)) (json_loads ext s)"
    using assms unfolding library_implements_def by blast
  have d: "\<And>v h p. repr h v p \<Longrightarrow> \<exists>new. h_json_dumps hx v h = (json_dumps ext p, h @ new)"
    using assms unfolding library_implements_def by blast
  have "fst (h_transform_sparql_results hx s w h) = fst (transform_sparql_results ext s w) \<and>
        fst (snd (h_transform_sparql_results hx s w h)) = snd (transform_sparql_results ext s w) \<and>
        (\<exists>new. snd (snd (h_transform_sparql_results hx s w h)) = h @ new)"
  proof (cases "json_loads ext s")
    case (Inl e)
    then have "h_json_loads hx s h = (Inl e, h @ new)"
      using l1 l2 by (cases "fst (h_json_loads hx s h)") (auto simp: prod_eq_iff)
    then show ?thesis using Inl
      by (simp add: h_transform_sparql_results_def transform_sparql_results_def Let_def)
  next
    case (Inr p)
    then obtain sr where ld: "h_json_loads hx s h = (Inr sr, h @ new)" and r: "repr (h @ new) sr p"
      using l1 l2 by (cases "fst (h_json_loads hx s h)") (auto simp: prod_eq_iff)
    from transform_refines [OF r] obtain rest where
      t1: "snd (h_transform sr (h @ new)) = h @ new @ rest" and
      t2: "rel_sum (=) (repr (h @ new @ rest)) (fst (h_transform sr (h @ new))) (transform_parsed p)"
      by auto
    show ?thesis
    proof (cases "transform_parsed p")
      case (Inl e)
      then have "h_transform sr (h @ new) = (Inl e, h @ new @ rest)"
        using t1 t2 by (cases "fst (h_transform sr (h @ new))") (auto simp: prod_eq_iff)
      then show ?thesis using Inl \<open>json_loads ext s = Inr p\<close> ld
        by (simp add: h_transform_sparql_results_def transform_sparql_results_def Let_def)
    next
      case (Inr q)
      then obtain out where tr: "h_transform sr (h @ new) = (Inr out, h @ new @ rest)"
        and ro: "repr (h @ new @ rest) out q"
        using t1 t2 by (cases "fst (h_transform sr (h @ new))") (auto simp: prod_eq_iff)
      from d [OF ro] obtain new' where
        "h_json_dumps hx out (h @ new @ rest) = (json_dumps ext q, (h @ new @ rest) @ new')" ..
      then show ?thesis using Inr \<open>json_loads ext s = Inr p\<close> ld tr
        by (simp add: h_transform_sparql_results_def transform_sparql_results_def Let_def)
    qed
  qed
  then show "fst (h_transform_sparql_results hx s w h) = fst (transform_sparql_results ext s w)"
    and "fst (snd (h_transform_sparql_results hx s w h)) = snd (transform_sparql_results ext s w)"
    and "\<exists>new. snd (snd (h_transform_sparql_results hx s w h)) = h @ new"
    by simp_all
qed

lemma pure_translator_state:
  "fst (transform_sparql_results ext s w1) = fst (transform_sparql_results ext s w2)"
  "snd (transform_sparql_results ext s w) = logger_info ''results are: {}'' [s] w"
  by (simp_all add: transform_sparql_results_def Let_def)

lemma noop_objects_repr:
  "repr (h @ noop_objects (length h)) (HRef (length h + 6)) noop_parsed"
proof -
  let ?n = "length h"
  let ?H = "h @ noop_objects ?n"
  have len: "length ?H = ?n + 7" by (simp add: noop_objects_def)
  have cell: "\<And>i. i < 7 \<Longrightarrow> ?H ! (?n + i) = noop_objects ?n ! i"
    by (simp add: nth_append)
  have vars: "repr ?H (HRef ?n) (PList [PStr ''noop''])"
    by (rule repr.repr_list [where xs = "[HStr ''noop'']"])
       (use cell [of 0] in \<open>simp_all add: len noop_objects_def repr_str\<close>)
  have head: "repr ?H (HRef (?n + 1)) (PDict [(PStr ''vars'', PList [PStr ''noop''])])"
    by (rule repr.repr_dict [where d = "[(HStr ''vars'', HRef ?n)]"])
       (use cell [of 1] vars in \<open>simp_all add: len noop_objects_def\<close>)
  have desc: "repr ?H (HRef (?n + 2))
                (PDict [(PStr ''type'', PStr ''literal''), (PStr ''value'', PStr ''noop'')])"
    by (rule repr.repr_dict
          [where d = "[(HStr ''type'', HStr ''literal''), (HStr ''value'', HStr ''noop'')]"])
       (use cell [of 2] in \<open>simp_all add: len noop_objects_def repr_str\<close>)
  have binding: "repr ?H (HRef (?n + 3))
                   (PDict [(PStr ''noop'',
                      PDict [(PStr ''type'', PStr ''literal''), (PStr ''value'', PStr ''noop'')])])"
    by (rule repr.repr_dict [where d = "[(HStr ''noop'', HRef (?n + 2))]"])
       (use cell [of 3] desc in \<open>simp_all add: len noop_objects_def\<close>)
  have bindings: "repr ?H (HRef (?n + 4))
                    (PList [PDict [(PStr ''noop'',
                       PDict [(PStr ''type'', PStr ''literal''), (PStr ''value'', PStr ''noop'')])]])"
    by (rule repr.repr_list [where xs = "[HRef (?n + 3)]"])
       (use cell [of 4] binding in \<open>simp_all add: len noop_objects_def\<close>)
  have results: "repr ?H (HRef (?n + 5))
                   (PDict [(PStr ''bindings'',
                      PList [PDict [(PStr ''noop'',
                        PDict [(PStr ''type'', PStr ''literal''), (PStr ''value'', PStr ''noop'')])]])])"
    by (rule repr.repr_dict [where d = "[(HStr ''bindings'', HRef (?n + 4))]"])
       (use cell [of 5] bindings in \<open>simp_all add: len noop_objects_def\<close>)
  show ?thesis
    unfolding noop_parsed_def
    by (rule repr.repr_dict
          [where d = "[(HStr ''head'', HRef (?n + 1)), (HStr ''results'', HRef (?n + 5))]"])
       (use cell [of 6] head results in \<open>simp_all add: len noop_objects_def\<close>)
qed

lemma noop_library:
  "library_implements noop_heap_externals (fixed_externals noop_text noop_parsed ''out'' (Inr noop_text))"
  unfolding library_implements_def
proof (intro conjI allI impI)
  fix s h
  show "\<exists>new. snd (h_json_loads noop_heap_externals s h) = h @ new \<and>
              rel_sum (=) (repr (h @ new)) (fst (h_json_loads noop_heap_externals s h))
                (json_loads (fixed_externals noop_text noop_parsed ''out'' (Inr noop_text)) s)"
  proof (cases "s = noop_text")
    case True
    then show ?thesis
      by (intro exI [where x = "noop_objects (length h)"])
         (simp add: noop_heap_externals_def fixed_externals_def noop_objects_repr)
  next
    case False
    then show ?thesis
      by (intro exI [where x = "[]"]) (simp add: noop_heap_externals_def fixed_externals_def)
  qed
next
  fix v h p
  show "\<exists>new. h_json_dumps noop_heap_externals v h =
              (json_dumps (fixed_externals noop_text noop_parsed ''out'' (Inr noop_text)) p, h @ new)"
    by (intro exI [where x = "[]"]) (simp add: noop_heap_externals_def fixed_externals_def)
qed

lemma noop_heap_run:
  "h_transform (HRef 6) (noop_objects 0) =
     (Inr (HRef 11),
      noop_objects 0 @
      [OList [HRef 8],
       ODict [(HStr ''noop'', HStr ''noop'')],
       OList [HRef 10],
       ODict [(HStr ''name'', HStr ''noop''), (HStr ''friendly_name'', HStr ''noop''),
              (HStr ''type'', HStr ''string'')],
       ODict [(HStr ''columns'', HRef 9), (HStr ''rows'', HRef 7)]])"
  by (simp add: h_transform_def noop_objects_def h_alloc_def h_results_bindings_def h_head_vars_def
      h_getitem_def h_lookup_def h_iter_def h_key_eq_def h_dict_store_def h_list_append_def
      h_column_def)

lemma repr_functional: "repr h v p \<Longrightarrow> repr h v q \<Longrightarrow> p = q"
proof (induction arbitrary: q rule: repr.induct)
  case (repr_imm v p)
  then show ?case by (simp add: repr_imm_iff)
next
  case (repr_list a xs ps)
  from repr_list(4) obtain qs where q: "q = PList qs" and qs: "list_all2 (repr h) xs qs"
    using repr_list(2) by (cases rule: repr.cases) auto
  have "ps = qs"
    using repr_list(3) qs
  proof (induction arbitrary: qs rule: list_all2_induct)
    case Nil
    then show ?case by simp
  next
    case (Cons x xs p ps)
    then show ?case by (cases qs) auto
  qed
  then show ?case using q by simp
next
  case (repr_dict a d dp)
  from repr_dict(4) obtain dq where q: "q = PDict dq"
    and dq: "list_all2 (\<lambda>e ep. of_imm (fst e) = Some (fst ep) \<and> repr h (snd e) (snd ep)) d dq"
    using repr_dict(2) by (cases rule: repr.cases) auto
  have "dp = dq"
    using repr_dict(3) dq
  proof (induction arbitrary: dq rule: list_all2_induct)
    case Nil
    then show ?case by simp
  next
    case (Cons e d ep dp)
    then show ?case by (cases dq) (auto simp: prod_eq_iff)
  qed
  then show ?case using q by simp
qed

section \<open>The claims\<close>

text \<open>
  Claim C1, as amended. For every input whose parse contains \<open>head.vars\<close> (an array of
  strings) and \<open>results.bindings\<close> (an array of objects), and in which whatever a binding
  gives to a variable of \<open>head.vars\<close> is an object, the translator serialises one row per
  binding, in the order of the bindings; in the row of binding \<open>b\<close>, every variable \<open>v\<close> of
  \<open>head.vars\<close> maps to \<open>b[v].value\<close> when \<open>v\<close> is a key of \<open>b\<close> and the descriptor has a
  \<open>value\<close> field, and to the empty string otherwise; the keys of the row are in the order
  of \<open>head.vars\<close> when no name repeats there.
\<close>

theorem rows_follow_bindings:
  assumes "json_loads ext s = Inr sr" and "sparql_valid sr vs bs"
  shows "\<exists>cols rows.
           transform_parsed sr =
             Inr (PDict [(PStr ''columns'', PList cols), (PStr ''rows'', PList (map PDict rows))]) \<and>
           fst (transform_sparql_results ext s w) =
             json_dumps ext (PDict [(PStr ''columns'', PList cols),
                                    (PStr ''rows'', PList (map PDict rows))]) \<and>
           length rows = length bs \<and>
           (\<forall>i < length bs.
              (\<forall>v \<in> set vs. dict_get (rows ! i) (PStr v) = Some (spec_cell (bs ! i) v)) \<and>
              (distinct vs \<longrightarrow> map fst (rows ! i) = map PStr vs))"
proof (intro exI conjI)
  show "transform_parsed sr =
          Inr (PDict [(PStr ''columns'', PList (map (\<lambda>v. column (PStr v)) vs)),
                      (PStr ''rows'', PList (map PDict (map (\<lambda>b. filled_row b vs []) bs)))])"
    by (rule parsed_valid [OF assms(2)])
  show "fst (transform_sparql_results ext s w) =
          json_dumps ext (PDict [(PStr ''columns'', PList (map (\<lambda>v. column (PStr v)) vs)),
                                 (PStr ''rows'', PList (map PDict (map (\<lambda>b. filled_row b vs []) bs)))])"
    by (rule translate_valid [OF assms])
  show "length (map (\<lambda>b. filled_row b vs []) bs) = length bs" by simp
  show "\<forall>i < length bs.
          (\<forall>v \<in> set vs. dict_get (map (\<lambda>b. filled_row b vs []) bs ! i) (PStr v) =
                          Some (spec_cell (bs ! i) v)) \<and>
          (distinct vs \<longrightarrow> map fst (map (\<lambda>b. filled_row b vs []) bs ! i) = map PStr vs)"
    by (simp add: filled_row_get filled_row_keys_order)
qed

text \<open>The theorem of claim C1 on two variables and two bindings.\<close>

theorem rows_follow_bindings_witness:
  "json_loads (fixed_externals ''doc'' (sparql_document [''a'', ''b''] two_bindings) ''out'' (Inr ''doc'')) ''doc''
     = Inr (sparql_document [''a'', ''b''] two_bindings) \<and>
   sparql_valid (sparql_document [''a'', ''b''] two_bindings) [''a'', ''b''] two_bindings \<and>
   (\<exists>cols rows.
      transform_parsed (sparql_document [''a'', ''b''] two_bindings) =
        Inr (PDict [(PStr ''columns'', PList cols), (PStr ''rows'', PList (map PDict rows))]) \<and>
      length rows = 2 \<and>
      dict_get (rows ! 0) (PStr ''a'') = Some (PInt 42) \<and>
      dict_get (rows ! 0) (PStr ''b'') = Some (PStr '''') \<and>
      dict_get (rows ! 1) (PStr ''a'') = Some (PStr '''') \<and>
      dict_get (rows ! 1) (PStr ''b'') = Some (PStr ''urn:x'') \<and>
      map fst (rows ! 0) = [PStr ''a'', PStr ''b''] \<and>
      map fst (rows ! 1) = [PStr ''a'', PStr ''b''])"
proof -
  let ?doc = "sparql_document [''a'', ''b''] two_bindings"
  let ?ext = "fixed_externals ''doc'' ?doc ''out'' (Inr ''doc'')"
  have l: "json_loads ?ext ''doc'' = Inr ?doc"
    by (rule fixed_loads)
  have len: "length two_bindings = 2" by (simp add: two_bindings_def)
  have cells:
    "spec_cell (two_bindings ! 0) ''a'' = PInt 42" "spec_cell (two_bindings ! 0) ''b'' = PStr ''''"
    "spec_cell (two_bindings ! 1) ''a'' = PStr ''''" "spec_cell (two_bindings ! 1) ''b'' = PStr ''urn:x''"
    by (simp_all add: two_bindings_def spec_cell_def)
  from rows_follow_bindings [OF l two_bindings_valid, of quiet_world]
  obtain cols rows where
    out: "transform_parsed ?doc =
            Inr (PDict [(PStr ''columns'', PList cols), (PStr ''rows'', PList (map PDict rows))])"
    and n: "length rows = length two_bindings"
    and r: "\<forall>i < length two_bindings.
              (\<forall>v \<in> set [''a'', ''b'']. dict_get (rows ! i) (PStr v) = Some (spec_cell (two_bindings ! i) v)) \<and>
              (distinct [''a'', ''b''] \<longrightarrow> map fst (rows ! i) = map PStr [''a'', ''b''])"
    by blast
  have r0: "(\<forall>v \<in> set [''a'', ''b'']. dict_get (rows ! 0) (PStr v) = Some (spec_cell (two_bindings ! 0) v)) \<and>
            (distinct [''a'', ''b''] \<longrightarrow> map fst (rows ! 0) = map PStr [''a'', ''b''])"
    using r len by simp
  have r1: "(\<forall>v \<in> set [''a'', ''b'']. dict_get (rows ! 1) (PStr v) = Some (spec_cell (two_bindings ! 1) v)) \<and>
            (distinct [''a'', ''b''] \<longrightarrow> map fst (rows ! 1) = map PStr [''a'', ''b''])"
    using r len by simp
  have "length rows = 2 \<and>
      dict_get (rows ! 0) (PStr ''a'') = Some (PInt 42) \<and>
      dict_get (rows ! 0) (PStr ''b'') = Some (PStr '''') \<and>
      dict_get (rows ! 1) (PStr ''a'') = Some (PStr '''') \<and>
      dict_get (rows ! 1) (PStr ''b'') = Some (PStr ''urn:x'') \<and>
      map fst (rows ! 0) = [PStr ''a'', PStr ''b''] \<and>
      map fst (rows ! 1) = [PStr ''a'', PStr ''b'']"
    using n len r0 r1 cells by simp
  with out have "\<exists>cols rows.
      transform_parsed ?doc =
        Inr (PDict [(PStr ''columns'', PList cols), (PStr ''rows'', PList (map PDict rows))]) \<and>
      length rows = 2 \<and>
      dict_get (rows ! 0) (PStr ''a'') = Some (PInt 42) \<and>
      dict_get (rows ! 0) (PStr ''b'') = Some (PStr '''') \<and>
      dict_get (rows ! 1) (PStr ''a'') = Some (PStr '''') \<and>
      dict_get (rows ! 1) (PStr ''b'') = Some (PStr ''urn:x'') \<and>
      map fst (rows ! 0) = [PStr ''a'', PStr ''b''] \<and>
      map fst (rows ! 1) = [PStr ''a'', PStr ''b'']"
    by (intro exI [where x = cols] exI [where x = rows] conjI) simp_all
  with l two_bindings_valid show ?thesis by simp
qed

text \<open>
  Claim C1 as stated, without the condition on the descriptors, fails: a binding that gives
  the variable a plain string has the shape the claim asks for, the claim's cell is the
  empty string, and the translator raises TypeError.
\<close>

theorem rows_follow_bindings_counterexample:
  "json_loads (fixed_externals ''doc'' (sparql_document [''a''] plain_string_binding) ''out'' (Inr ''doc'')) ''doc''
     = Inr (sparql_document [''a''] plain_string_binding) \<and>
   sparql_shape (sparql_document [''a''] plain_string_binding) [''a''] plain_string_binding \<and>
   spec_cell (plain_string_binding ! 0) ''a'' = PStr '''' \<and>
   transform_parsed (sparql_document [''a''] plain_string_binding) = Inl TypeError \<and>
   fst (transform_sparql_results
          (fixed_externals ''doc'' (sparql_document [''a''] plain_string_binding) ''out'' (Inr ''doc''))
          ''doc'' quiet_world) = Inl TypeError"
  by (simp add: fixed_loads document_shape transform_result)
     (simp add: sparql_document_def plain_string_binding_def spec_cell_def transform_parsed_def
        results_bindings_def head_vars_def seq_getitem_def)

text \<open>
  Claim C2. For every valid input the serialised \<open>columns\<close> array has one entry per
  variable of \<open>head.vars\<close>, in the same order and with repeated names kept, each entry being
  \<open>{name: v, friendly_name: v, type: "string"}\<close>, whatever the bindings hold.
\<close>

theorem columns_follow_vars:
  assumes "json_loads ext s = Inr sr" and "sparql_valid sr vs bs"
  shows "\<exists>rows.
           transform_parsed sr =
             Inr (PDict [(PStr ''columns'',
                          PList (map (\<lambda>v. PDict [(PStr ''name'', PStr v),
                                                    (PStr ''friendly_name'', PStr v),
                                                    (PStr ''type'', PStr ''string'')]) vs)),
                         (PStr ''rows'', PList rows)]) \<and>
           fst (transform_sparql_results ext s w) =
             json_dumps ext
               (PDict [(PStr ''columns'',
                          PList (map (\<lambda>v. PDict [(PStr ''name'', PStr v),
                                                    (PStr ''friendly_name'', PStr v),
                                                    (PStr ''type'', PStr ''string'')]) vs)),
                       (PStr ''rows'', PList rows)])"
  using translate_valid [OF assms, of w] parsed_valid [OF assms(2)] by (auto simp: column_def)

text \<open>The theorem of claim C2 on the variables \<open>b\<close>, \<open>a\<close>, \<open>b\<close>.\<close>

theorem columns_follow_vars_witness:
  "json_loads (fixed_externals ''doc'' (sparql_document [''b'', ''a'', ''b''] two_bindings) ''out'' (Inr ''doc'')) ''doc''
     = Inr (sparql_document [''b'', ''a'', ''b''] two_bindings) \<and>
   sparql_valid (sparql_document [''b'', ''a'', ''b''] two_bindings) [''b'', ''a'', ''b''] two_bindings \<and>
   (\<exists>rows.
      transform_parsed (sparql_document [''b'', ''a'', ''b''] two_bindings) =
        Inr (PDict [(PStr ''columns'',
                     PList [PDict [(PStr ''name'', PStr ''b''), (PStr ''friendly_name'', PStr ''b''),
                                   (PStr ''type'', PStr ''string'')],
                            PDict [(PStr ''name'', PStr ''a''), (PStr ''friendly_name'', PStr ''a''),
                                   (PStr ''type'', PStr ''string'')],
                            PDict [(PStr ''name'', PStr ''b''), (PStr ''friendly_name'', PStr ''b''),
                                   (PStr ''type'', PStr ''string'')]]),
                  (PStr ''rows'', PList rows)]))"
proof -
  let ?doc = "sparql_document [''b'', ''a'', ''b''] two_bindings"
  have l: "json_loads (fixed_externals ''doc'' ?doc ''out'' (Inr ''doc'')) ''doc'' = Inr ?doc"
    by (rule fixed_loads)
  have v: "sparql_valid ?doc [''b'', ''a'', ''b''] two_bindings"
    by (simp add: sparql_valid_def document_shape)
       (simp add: two_bindings_def bound_to_objects_def)
  show ?thesis
    using columns_follow_vars [OF l v, of quiet_world] l v by auto
qed

text \<open>
  Claim C3, as amended. For every valid input and every index \<open>i\<close>: the keys of
  \<open>rows[i]\<close> are exactly the names in \<open>head.vars\<close>, each once, so that a row has as many
  keys as \<open>head.vars\<close> has distinct names (\<open>head.vars.length\<close> when no name repeats)
  and binding entries for other variables are dropped; \<open>columns\<close> is as long as
  \<open>head.vars\<close> and \<open>rows\<close> as long as \<open>results.bindings\<close>; an unbound variable is
  in the row, with the empty string.
\<close>

theorem row_keys_are_vars:
  assumes "json_loads ext s = Inr sr" and "sparql_valid sr vs bs"
  shows "\<exists>cols rows.
           transform_parsed sr =
             Inr (PDict [(PStr ''columns'', PList cols), (PStr ''rows'', PList (map PDict rows))]) \<and>
           fst (transform_sparql_results ext s w) =
             json_dumps ext (PDict [(PStr ''columns'', PList cols),
                                    (PStr ''rows'', PList (map PDict rows))]) \<and>
           length cols = length vs \<and> length rows = length bs \<and>
           (\<forall>i < length bs.
              set (map fst (rows ! i)) = PStr ` set vs \<and>
              distinct (map fst (rows ! i)) \<and>
              length (rows ! i) = card (set vs) \<and>
              (distinct vs \<longrightarrow> length (rows ! i) = length vs) \<and>
              (\<forall>v \<in> set vs. dict_get (bs ! i) (PStr v) = None \<longrightarrow>
                              dict_get (rows ! i) (PStr v) = Some (PStr '''')))"
proof (intro exI conjI)
  show "transform_parsed sr =
          Inr (PDict [(PStr ''columns'', PList (map (\<lambda>v. column (PStr v)) vs)),
                      (PStr ''rows'', PList (map PDict (map (\<lambda>b. filled_row b vs []) bs)))])"
    by (rule parsed_valid [OF assms(2)])
  show "fst (transform_sparql_results ext s w) =
          json_dumps ext (PDict [(PStr ''columns'', PList (map (\<lambda>v. column (PStr v)) vs)),
                                 (PStr ''rows'', PList (map PDict (map (\<lambda>b. filled_row b vs []) bs)))])"
    by (rule translate_valid [OF assms])
  show "length (map (\<lambda>v. column (PStr v)) vs) = length vs" by simp
  show "length (map (\<lambda>b. filled_row b vs []) bs) = length bs" by simp
  show "\<forall>i < length bs.
          set (map fst (map (\<lambda>b. filled_row b vs []) bs ! i)) = PStr ` set vs \<and>
          distinct (map fst (map (\<lambda>b. filled_row b vs []) bs ! i)) \<and>
          length (map (\<lambda>b. filled_row b vs []) bs ! i) = card (set vs) \<and>
          (distinct vs \<longrightarrow> length (map (\<lambda>b. filled_row b vs []) bs ! i) = length vs) \<and>
          (\<forall>v \<in> set vs. dict_get (bs ! i) (PStr v) = None \<longrightarrow>
                          dict_get (map (\<lambda>b. filled_row b vs []) bs ! i) (PStr v) = Some (PStr ''''))"
  proof (intro allI impI conjI)
    fix i assume i: "i < length bs"
    show "set (map fst (map (\<lambda>b. filled_row b vs []) bs ! i)) = PStr ` set vs"
      using i by (simp only: nth_map filled_row_keys_set) simp
    show "distinct (map fst (map (\<lambda>b. filled_row b vs []) bs ! i))"
      using i by (simp add: filled_row_keys_distinct)
    show "length (map (\<lambda>b. filled_row b vs []) bs ! i) = card (set vs)"
      using i by (simp add: filled_row_length)
    show "length (map (\<lambda>b. filled_row b vs []) bs ! i) = length vs" if "distinct vs"
      using i that by (simp add: filled_row_length distinct_card)
    show "\<forall>v \<in> set vs. dict_get (bs ! i) (PStr v) = None \<longrightarrow>
            dict_get (map (\<lambda>b. filled_row b vs []) bs ! i) (PStr v) = Some (PStr '''')"
      using i by (simp add: filled_row_get spec_cell_def)
  qed
qed

text \<open>The theorem of claim C3 on two variables and two bindings; the first binding
  leaves \<open>b\<close> unbound.\<close>

theorem row_keys_are_vars_witness:
  "json_loads (fixed_externals ''doc'' (sparql_document [''a'', ''b''] two_bindings) ''out'' (Inr ''doc'')) ''doc''
     = Inr (sparql_document [''a'', ''b''] two_bindings) \<and>
   sparql_valid (sparql_document [''a'', ''b''] two_bindings) [''a'', ''b''] two_bindings \<and>
   (\<exists>cols rows.
      transform_parsed (sparql_document [''a'', ''b''] two_bindings) =
        Inr (PDict [(PStr ''columns'', PList cols), (PStr ''rows'', PList (map PDict rows))]) \<and>
      length cols = 2 \<and> length rows = 2 \<and>
      set (map fst (rows ! 0)) = {PStr ''a'', PStr ''b''} \<and>
      length (rows ! 0) = 2 \<and>
      dict_get (rows ! 0) (PStr ''b'') = Some (PStr ''''))"
proof -
  let ?doc = "sparql_document [''a'', ''b''] two_bindings"
  let ?ext = "fixed_externals ''doc'' ?doc ''out'' (Inr ''doc'')"
  have l: "json_loads ?ext ''doc'' = Inr ?doc"
    by (rule fixed_loads)
  have len: "length two_bindings = 2" by (simp add: two_bindings_def)
  have unbound: "dict_get (two_bindings ! 0) (PStr ''b'') = None"
    by (simp add: two_bindings_def)
  from row_keys_are_vars [OF l two_bindings_valid, of quiet_world]
  obtain cols rows where
    out: "transform_parsed ?doc =
            Inr (PDict [(PStr ''columns'', PList cols), (PStr ''rows'', PList (map PDict rows))])"
    and n: "length cols = length [''a'', ''b'']" "length rows = length two_bindings"
    and r: "\<forall>i < length two_bindings.
              set (map fst (rows ! i)) = PStr ` set [''a'', ''b''] \<and>
              distinct (map fst (rows ! i)) \<and>
              length (rows ! i) = card (set [''a'', ''b'']) \<and>
              (distinct [''a'', ''b''] \<longrightarrow> length (rows ! i) = length [''a'', ''b'']) \<and>
              (\<forall>v \<in> set [''a'', ''b'']. dict_get (two_bindings ! i) (PStr v) = None \<longrightarrow>
                              dict_get (rows ! i) (PStr v) = Some (PStr ''''))"
    by blast
  have r0: "set (map fst (rows ! 0)) = PStr ` set [''a'', ''b''] \<and>
            (distinct [''a'', ''b''] \<longrightarrow> length (rows ! 0) = length [''a'', ''b'']) \<and>
            (\<forall>v \<in> set [''a'', ''b'']. dict_get (two_bindings ! 0) (PStr v) = None \<longrightarrow>
                              dict_get (rows ! 0) (PStr v) = Some (PStr ''''))"
    using r len by simp
  have "length cols = 2 \<and> length rows = 2 \<and>
      set (map fst (rows ! 0)) = {PStr ''a'', PStr ''b''} \<and>
      length (rows ! 0) = 2 \<and>
      dict_get (rows ! 0) (PStr ''b'') = Some (PStr '''')"
    using n len r0 unbound by simp
  with out have "\<exists>cols rows.
      transform_parsed ?doc =
        Inr (PDict [(PStr ''columns'', PList cols), (PStr ''rows'', PList (map PDict rows))]) \<and>
      length cols = 2 \<and> length rows = 2 \<and>
      set (map fst (rows ! 0)) = {PStr ''a'', PStr ''b''} \<and>
      length (rows ! 0) = 2 \<and>
      dict_get (rows ! 0) (PStr ''b'') = Some (PStr '''')"
    by (intro exI [where x = cols] exI [where x = rows] conjI) simp_all
  with l two_bindings_valid show ?thesis by simp
qed

text \<open>
  Claim C3 as stated fails where a name repeats in \<open>head.vars\<close>: for the variables \<open>a\<close>,
  \<open>a\<close> and one empty binding the input is valid and the row has one key, not
  \<open>head.vars.length = 2\<close>.
\<close>

theorem row_keys_are_vars_counterexample:
  "sparql_valid (sparql_document [''a'', ''a''] [[]]) [''a'', ''a''] [[]] \<and>
   transform_parsed (sparql_document [''a'', ''a''] [[]]) =
     Inr (PDict [(PStr ''columns'', PList [column (PStr ''a''), column (PStr ''a'')]),
                 (PStr ''rows'', PList [PDict [(PStr ''a'', PStr '''')]])]) \<and>
   length [(PStr ''a'', PStr '''')] \<noteq> length [''a'', ''a'']"
  by (simp add: sparql_valid_def document_shape bound_to_objects_def)
     (simp add: sparql_document_def transform_parsed_def results_bindings_def head_vars_def
        py_setitem_def)

text \<open>
  Claim C4. For the input of scenario 1, whose parse is \<open>noop_parsed\<close>, the translator
  returns the serialisation of
  \<open>{"columns": [{"name": "noop", "friendly_name": "noop", "type": "string"}], "rows": [{"noop": "noop"}]}\<close>.
\<close>

theorem noop_translated:
  assumes "json_loads ext noop_text = Inr noop_parsed"
  shows "transform_parsed noop_parsed = Inr noop_expected \<and>
         fst (transform_sparql_results ext noop_text w) = json_dumps ext noop_expected"
  by (simp add: noop_parsed_result transform_result [OF assms])

text \<open>The theorem of claim C4 with a \<open>json_loads\<close> that parses the document.\<close>

theorem noop_translated_witness:
  "json_loads (fixed_externals noop_text noop_parsed ''out'' (Inr noop_text)) noop_text = Inr noop_parsed \<and>
   transform_parsed noop_parsed = Inr noop_expected \<and>
   fst (transform_sparql_results (fixed_externals noop_text noop_parsed ''out'' (Inr noop_text))
          noop_text quiet_world)
     = json_dumps (fixed_externals noop_text noop_parsed ''out'' (Inr noop_text)) noop_expected"
proof -
  have l: "json_loads (fixed_externals noop_text noop_parsed ''out'' (Inr noop_text)) noop_text
             = Inr noop_parsed"
    by (rule fixed_loads)
  show ?thesis using noop_translated [OF l, of quiet_world] l by simp
qed

text \<open>
  Claim C5. For every input string that is not valid JSON (\<open>json_loads\<close> raises), or whose
  parsed value lacks \<open>head\<close> (or \<open>head.vars\<close>) or \<open>results\<close> (or
  \<open>results.bindings\<close>), the translator raises and returns no translated value: the
  error of \<open>json_loads\<close> in the first case, KeyError or TypeError in the second.
\<close>

theorem malformed_input_raises:
  assumes "(\<exists>e. json_loads ext s = Inl e) \<or>
           (\<exists>sr. json_loads ext s = Inr sr \<and>
                 (json_path2 sr ''head'' ''vars'' = None \<or>
                  json_path2 sr ''results'' ''bindings'' = None))"
  shows "(\<exists>e. fst (transform_sparql_results ext s w) = Inl e) \<and>
         (\<forall>e. json_loads ext s = Inl e \<longrightarrow> fst (transform_sparql_results ext s w) = Inl e) \<and>
         (\<forall>sr. json_loads ext s = Inr sr \<longrightarrow>
               fst (transform_sparql_results ext s w) = Inl KeyError \<or>
               fst (transform_sparql_results ext s w) = Inl TypeError)"
  using assms
proof
  assume "\<exists>e. json_loads ext s = Inl e"
  then obtain e where "json_loads ext s = Inl e" ..
  then show ?thesis by (simp add: transform_sparql_results_def Let_def)
next
  assume "\<exists>sr. json_loads ext s = Inr sr \<and>
               (json_path2 sr ''head'' ''vars'' = None \<or>
                json_path2 sr ''results'' ''bindings'' = None)"
  then obtain sr where l: "json_loads ext s = Inr sr"
    and m: "json_path2 sr ''head'' ''vars'' = None \<or> json_path2 sr ''results'' ''bindings'' = None"
    by auto
  from parsed_missing [OF m] show ?thesis
    by (auto simp: transform_result [OF l] l)
qed

text \<open>The theorem of claim C5 on a text that \<open>json_loads\<close> rejects, and on the document
  \<open>{"results": {"bindings": []}}\<close>, which has no \<open>head\<close>.\<close>

theorem malformed_input_raises_witness:
  "json_loads (fixed_externals ''doc'' headless_document ''out'' (Inr ''doc'')) ''{'' = Inl ValueError \<and>
   fst (transform_sparql_results (fixed_externals ''doc'' headless_document ''out'' (Inr ''doc''))
          ''{'' quiet_world) = Inl ValueError \<and>
   json_loads (fixed_externals ''doc'' headless_document ''out'' (Inr ''doc'')) ''doc''
     = Inr headless_document \<and>
   json_path2 headless_document ''head'' ''vars'' = None \<and>
   (fst (transform_sparql_results (fixed_externals ''doc'' headless_document ''out'' (Inr ''doc''))
           ''doc'' quiet_world) = Inl KeyError \<or>
    fst (transform_sparql_results (fixed_externals ''doc'' headless_document ''out'' (Inr ''doc''))
           ''doc'' quiet_world) = Inl TypeError)"
proof -
  let ?ext = "fixed_externals ''doc'' headless_document ''out'' (Inr ''doc'')"
  have bad: "json_loads ?ext ''{'' = Inl ValueError" by (simp add: fixed_externals_def)
  have l: "json_loads ?ext ''doc'' = Inr headless_document" by (rule fixed_loads)
  have m: "json_path2 headless_document ''head'' ''vars'' = None"
    by (simp add: headless_document_def json_path2_def)
  have h1: "(\<exists>e. json_loads ?ext ''{'' = Inl e) \<or>
            (\<exists>sr. json_loads ?ext ''{'' = Inr sr \<and>
                  (json_path2 sr ''head'' ''vars'' = None \<or>
                   json_path2 sr ''results'' ''bindings'' = None))"
    using bad by simp
  have h2: "(\<exists>e. json_loads ?ext ''doc'' = Inl e) \<or>
            (\<exists>sr. json_loads ?ext ''doc'' = Inr sr \<and>
                  (json_path2 sr ''head'' ''vars'' = None \<or>
                   json_path2 sr ''results'' ''bindings'' = None))"
    using l m by simp
  show ?thesis
    using malformed_input_raises [OF h1, of quiet_world]
      malformed_input_raises [OF h2, of quiet_world] bad l m by simp
qed

text \<open>
  Claim C6. After \<open>_setup_environment\<close> has run with the configuration \<open>config\<close>, for every
  key \<open>k\<close> of the allow-list: \<open>k\<close> is in the environment if and only if \<open>config\<close> maps \<open>k\<close>
  to a value other than \<open>None\<close>, and then the environment holds that value, whatever it held
  before; an allow-listed key that \<open>config\<close> lacks or maps to \<open>None\<close> is not in the
  environment; every key outside the allow-list is as it was.
\<close>

theorem staged_environment:
  assumes "setup_environment config w = (Inr (), w')"
  shows "(k \<in> set KNOWN_CONFIG_KEYS \<longrightarrow>
            (environ w' k \<noteq> None) = (\<exists>v. config k = Some v \<and> v \<noteq> PNone) \<and>
            (\<forall>v. config k = Some v \<and> v \<noteq> PNone \<longrightarrow> (\<exists>s. v = PStr s \<and> environ w' k = Some s)) \<and>
            (config k = None \<or> config k = Some PNone \<longrightarrow> environ w' k = None)) \<and>
         (k \<notin> set KNOWN_CONFIG_KEYS \<longrightarrow> environ w' k = environ w k)"
proof -
  from setup_loop_environ [OF assms [unfolded setup_environment_def], of k]
  have e: "environ w' k = (if k \<in> set KNOWN_CONFIG_KEYS then staged config k else environ w k)"
    and s: "k \<in> set KNOWN_CONFIG_KEYS \<longrightarrow> stageable (configuration_get config k)"
    by simp_all
  show ?thesis
  proof (cases "k \<in> set KNOWN_CONFIG_KEYS")
    case False
    then show ?thesis using e by simp
  next
    case True
    then have st: "stageable (configuration_get config k)" using s by simp
    show ?thesis
    proof (cases "config k")
      case None
      then show ?thesis using True e by (simp add: staged_def configuration_get_def)
    next
      case (Some v)
      then show ?thesis using True e st
        by (cases v) (simp_all add: staged_def configuration_get_def)
    qed
  qed
qed

text \<open>The theorem of claim C6 on scenario 5: only \<open>CMEM_BASE_URI\<close> is configured, and
  \<open>OAUTH_USER\<close> and \<open>PATH\<close> were set before.\<close>

theorem staged_environment_witness:
  "setup_environment uri_configuration used_world =
     (Inr (), snd (setup_environment uri_configuration used_world)) \<and>
   environ (snd (setup_environment uri_configuration used_world)) ''CMEM_BASE_URI'' = Some ''https://x'' \<and>
   environ (snd (setup_environment uri_configuration used_world)) ''OAUTH_USER'' = None \<and>
   environ (snd (setup_environment uri_configuration used_world)) ''PATH'' = Some ''/bin''"
proof -
  have h: "setup_environment uri_configuration used_world =
             (Inr (), snd (setup_environment uri_configuration used_world))"
    by (rule setup_environment_succeeds [OF uri_configuration_stageable])
  have "environ (snd (setup_environment uri_configuration used_world)) ''CMEM_BASE_URI'' = Some ''https://x''"
    using staged_environment [OF h, of "''CMEM_BASE_URI''"]
    by (simp add: KNOWN_CONFIG_KEYS_def uri_configuration_def)
  moreover have "environ (snd (setup_environment uri_configuration used_world)) ''OAUTH_USER'' = None"
    using staged_environment [OF h, of "''OAUTH_USER''"]
    by (simp add: KNOWN_CONFIG_KEYS_def uri_configuration_def)
  moreover have "environ (snd (setup_environment uri_configuration used_world)) ''PATH'' = Some ''/bin''"
    using staged_environment [OF h, of "''PATH''"]
    by (simp add: KNOWN_CONFIG_KEYS_def used_world_def)
  ultimately show ?thesis using h by simp
qed

text \<open>
  Claim C7. When the encoder, the staging, the external client and the translator raise
  nothing, \<open>run_query\<close> returns the pair of the translator's string for the client's
  encoded result and the error \<open>None\<close>; whenever it returns, it returns such a pair, so the
  error is never anything but \<open>None\<close>; and an exception of the external client is the
  outcome of \<open>run_query\<close>.
\<close>

theorem run_query_result:
  "(\<forall>qb w2 raw enc data w3.
      encode_utf8 ext q = Inr qb \<and>
      setup_environment c (logger_info ''about to execute query: {}'' [qb] w) = (Inr (), w2) \<and>
      get_results ext qb (environ w2) = Inr raw \<and>
      encode_utf8 ext raw = Inr enc \<and>
      transform_sparql_results ext enc w2 = (Inr data, w3) \<longrightarrow>
      run_query ext c q w = (Inr (data, None), w3)) \<and>
   (\<forall>r w'. run_query ext c q w = (Inr r, w') \<longrightarrow>
      snd r = None \<and>
      (\<exists>qb w2 raw enc.
         encode_utf8 ext q = Inr qb \<and>
         setup_environment c (logger_info ''about to execute query: {}'' [qb] w) = (Inr (), w2) \<and>
         get_results ext qb (environ w2) = Inr raw \<and>
         encode_utf8 ext raw = Inr enc \<and>
         transform_sparql_results ext enc w2 = (Inr (fst r), w'))) \<and>
   (\<forall>qb w2 e.
      encode_utf8 ext q = Inr qb \<and>
      setup_environment c (logger_info ''about to execute query: {}'' [qb] w) = (Inr (), w2) \<and>
      get_results ext qb (environ w2) = Inl e \<longrightarrow>
      run_query ext c q w = (Inl e, w2))"
proof (intro conjI allI impI)
  fix qb w2 raw enc data w3
  assume "encode_utf8 ext q = Inr qb \<and>
      setup_environment c (logger_info ''about to execute query: {}'' [qb] w) = (Inr (), w2) \<and>
      get_results ext qb (environ w2) = Inr raw \<and>
      encode_utf8 ext raw = Inr enc \<and>
      transform_sparql_results ext enc w2 = (Inr data, w3)"
  then show "run_query ext c q w = (Inr (data, None), w3)"
    by (simp add: run_query_staged)
next
  fix r w' assume "run_query ext c q w = (Inr r, w')"
  from run_query_returns [OF this]
  show "snd r = None"
    and "\<exists>qb w2 raw enc.
         encode_utf8 ext q = Inr qb \<and>
         setup_environment c (logger_info ''about to execute query: {}'' [qb] w) = (Inr (), w2) \<and>
         get_results ext qb (environ w2) = Inr raw \<and>
         encode_utf8 ext raw = Inr enc \<and>
         transform_sparql_results ext enc w2 = (Inr (fst r), w')"
    by simp_all
next
  fix qb w2 e
  assume "encode_utf8 ext q = Inr qb \<and>
      setup_environment c (logger_info ''about to execute query: {}'' [qb] w) = (Inr (), w2) \<and>
      get_results ext qb (environ w2) = Inl e"
  then show "run_query ext c q w = (Inl e, w2)"
    by (simp add: run_query_staged)
qed

text \<open>The theorem of claim C7 on a client that answers the document of scenario 1, and
  on a client that raises.\<close>

theorem run_query_result_witness:
  "fst (run_query (fixed_externals noop_text noop_parsed ''out'' (Inr noop_text))
          uri_configuration ''SELECT'' used_world) = Inr (''out'', None) \<and>
   fst (run_query (fixed_externals noop_text noop_parsed ''out'' (Inl (OtherError ''unauthorized'')))
          uri_configuration ''SELECT'' used_world) = Inl (OtherError ''unauthorized'')"
proof -
  let ?ok = "fixed_externals noop_text noop_parsed ''out'' (Inr noop_text)"
  let ?ko = "fixed_externals noop_text noop_parsed ''out'' (Inl (OtherError ''unauthorized''))"
  let ?w1 = "logger_info ''about to execute query: {}'' [''SELECT''] used_world"
  let ?w2 = "snd (setup_environment uri_configuration ?w1)"
  have s: "setup_environment uri_configuration ?w1 = (Inr (), ?w2)"
    by (rule setup_environment_succeeds [OF uri_configuration_stageable])
  have t: "transform_sparql_results ?ok noop_text ?w2 =
             (Inr ''out'', logger_info ''results are: {}'' [noop_text] ?w2)"
    by (simp add: transform_sparql_results_def Let_def fixed_loads noop_parsed_result)
       (simp add: fixed_externals_def)
  have ok: "encode_utf8 ?ok ''SELECT'' = Inr ''SELECT'' \<and>
      setup_environment uri_configuration ?w1 = (Inr (), ?w2) \<and>
      get_results ?ok ''SELECT'' (environ ?w2) = Inr noop_text \<and>
      encode_utf8 ?ok noop_text = Inr noop_text \<and>
      transform_sparql_results ?ok noop_text ?w2 =
        (Inr ''out'', logger_info ''results are: {}'' [noop_text] ?w2)"
    using s t by (simp add: fixed_externals_def)
  have ko: "encode_utf8 ?ko ''SELECT'' = Inr ''SELECT'' \<and>
      setup_environment uri_configuration ?w1 = (Inr (), ?w2) \<and>
      get_results ?ko ''SELECT'' (environ ?w2) = Inl (OtherError ''unauthorized'')"
    using s by (simp add: fixed_externals_def)
  have "run_query ?ok uri_configuration ''SELECT'' used_world =
          (Inr (''out'', None), logger_info ''results are: {}'' [noop_text] ?w2)"
    using run_query_result [of ?ok "''SELECT''" uri_configuration used_world] ok by blast
  moreover have "run_query ?ko uri_configuration ''SELECT'' used_world =
          (Inl (OtherError ''unauthorized''), ?w2)"
    using run_query_result [of ?ko "''SELECT''" uri_configuration used_world] ko by blast
  ultimately show ?thesis by simp
qed

text \<open>
  Claim C8. With a JSON library that is deterministic and changes no object, the
  translator is deterministic and idempotent in its input: its outcome for a string \<open>s\<close>
  is that of the structural translation of \<open>s\<close>, the same in every state of the
  environment, the log and the heap, so two calls on \<open>s\<close>, also one after the other, give
  the same output; and a call changes no object that was there before it (the heap only
  grows), leaves the environment as it was and adds one message to the log.
\<close>

theorem translator_deterministic:
  assumes "library_implements hx ext"
  shows "fst (h_transform_sparql_results hx s w1 h1) = fst (transform_sparql_results ext s w1) \<and>
         fst (h_transform_sparql_results hx s w1 h1) = fst (h_transform_sparql_results hx s w2 h2) \<and>
         fst (h_transform_sparql_results hx s
                (fst (snd (h_transform_sparql_results hx s w1 h1)))
                (snd (snd (h_transform_sparql_results hx s w1 h1)))) =
           fst (h_transform_sparql_results hx s w1 h1) \<and>
         (\<exists>new. snd (snd (h_transform_sparql_results hx s w1 h1)) = h1 @ new) \<and>
         environ (fst (snd (h_transform_sparql_results hx s w1 h1))) = environ w1 \<and>
         logged (fst (snd (h_transform_sparql_results hx s w1 h1))) =
           logged w1 @ [(''results are: {}'', [s])]"
  using heap_translator_refines [OF assms]
  by (simp add: pure_translator_state logger_info_def)

text \<open>The theorem of claim C8 on the document of scenario 1, translated once in an empty
  heap and once in a heap that holds objects already.\<close>

theorem translator_deterministic_witness:
  "library_implements noop_heap_externals (fixed_externals noop_text noop_parsed ''out'' (Inr noop_text)) \<and>
   fst (h_transform_sparql_results noop_heap_externals noop_text quiet_world []) =
     fst (h_transform_sparql_results noop_heap_externals noop_text used_world (noop_objects 0)) \<and>
   fst (h_transform_sparql_results noop_heap_externals noop_text quiet_world []) = Inr ''out'' \<and>
   take 7 (snd (snd (h_transform_sparql_results noop_heap_externals noop_text used_world (noop_objects 0))))
     = noop_objects 0"
proof -
  note here = translator_deterministic [OF noop_library, of noop_text quiet_world "[]" used_world "noop_objects 0"]
  note there = translator_deterministic [OF noop_library, of noop_text used_world "noop_objects 0" quiet_world "[]"]
  have 1: "fst (h_transform_sparql_results noop_heap_externals noop_text quiet_world []) =
           fst (h_transform_sparql_results noop_heap_externals noop_text used_world (noop_objects 0))"
    using here by blast
  have "fst (h_transform_sparql_results noop_heap_externals noop_text quiet_world []) =
        fst (transform_sparql_results (fixed_externals noop_text noop_parsed ''out'' (Inr noop_text))
               noop_text quiet_world)"
    using here by blast
  also have "\<dots> = Inr ''out''"
    by (simp add: transform_result [OF fixed_loads] noop_parsed_result)
       (simp add: fixed_externals_def)
  finally have 2: "fst (h_transform_sparql_results noop_heap_externals noop_text quiet_world []) = Inr ''out''" .
  obtain new where
    "snd (snd (h_transform_sparql_results noop_heap_externals noop_text used_world (noop_objects 0)))
       = noop_objects 0 @ new"
    using there by blast
  then have 3: "take 7 (snd (snd (h_transform_sparql_results noop_heap_externals noop_text used_world
                                   (noop_objects 0)))) = noop_objects 0"
    by (simp add: noop_objects_def)
  show ?thesis using noop_library 1 2 3 by simp
qed

text \<open>
  Claim C9. The lenient handling covers missing keys only: when a binding gives a variable
  of \<open>head.vars\<close> a value that is no object (a plain string, a number), the translator
  raises TypeError, which the KeyError handler does not catch; so there is an input with
  well-formed \<open>head\<close> and \<open>results\<close> on which translation fails.
\<close>

theorem non_object_descriptor_raises:
  assumes "json_loads ext s = Inr sr" and "sparql_shape sr vs bs"
    and "i < length bs" and "v \<in> set vs"
    and "dict_get (bs ! i) (PStr v) = Some x" and "\<not> is_object x"
  shows "transform_parsed sr = Inl TypeError \<and>
         fst (transform_sparql_results ext s w) = Inl TypeError"
  using parsed_bad [OF assms(2-6)] transform_result [OF assms(1), of w] by simp

text \<open>The theorem of claim C9 on a binding that gives \<open>a\<close> the string \<open>x\<close>.\<close>

theorem non_object_descriptor_raises_witness:
  "json_loads (fixed_externals ''doc'' (sparql_document [''a''] plain_string_binding) ''out'' (Inr ''doc'')) ''doc''
     = Inr (sparql_document [''a''] plain_string_binding) \<and>
   sparql_shape (sparql_document [''a''] plain_string_binding) [''a''] plain_string_binding \<and>
   0 < length plain_string_binding \<and> ''a'' \<in> set [''a''] \<and>
   dict_get (plain_string_binding ! 0) (PStr ''a'') = Some (PStr ''x'') \<and>
   \<not> is_object (PStr ''x'') \<and>
   transform_parsed (sparql_document [''a''] plain_string_binding) = Inl TypeError \<and>
   fst (transform_sparql_results
          (fixed_externals ''doc'' (sparql_document [''a''] plain_string_binding) ''out'' (Inr ''doc''))
          ''doc'' quiet_world) = Inl TypeError"
proof -
  have l: "json_loads (fixed_externals ''doc'' (sparql_document [''a''] plain_string_binding) ''out'' (Inr ''doc'')) ''doc''
     = Inr (sparql_document [''a''] plain_string_binding)"
    by (rule fixed_loads)
  have n: "0 < length plain_string_binding" by (simp add: plain_string_binding_def)
  have m: "''a'' \<in> set [''a'']" by simp
  have d: "dict_get (plain_string_binding ! 0) (PStr ''a'') = Some (PStr ''x'')"
    by (simp add: plain_string_binding_def)
  have o: "\<not> is_object (PStr ''x'')" by simp
  show ?thesis
    using non_object_descriptor_raises [OF l document_shape n m d o, of quiet_world] l n d
    by (simp add: document_shape)
qed

text \<open>
  Claim C10. The translator does not coerce bound values: on a valid input, when binding
  \<open>i\<close> gives the variable \<open>v\<close> of \<open>head.vars\<close> a descriptor whose \<open>value\<close> field holds
  \<open>x\<close>, of whatever JSON type, then \<open>rows[i][v]\<close> is \<open>x\<close> unchanged, while the column of
  \<open>v\<close> declares the type \<open>"string"\<close>.
\<close>

theorem value_copied_verbatim:
  assumes "json_loads ext s = Inr sr" and "sparql_valid sr vs bs"
    and "i < length bs" and "v \<in> set vs"
    and "dict_get (bs ! i) (PStr v) = Some (PDict d)"
    and "dict_get d (PStr ''value'') = Some x"
  shows "\<exists>cols rows.
           transform_parsed sr =
             Inr (PDict [(PStr ''columns'', PList cols), (PStr ''rows'', PList (map PDict rows))]) \<and>
           fst (transform_sparql_results ext s w) =
             json_dumps ext (PDict [(PStr ''columns'', PList cols),
                                    (PStr ''rows'', PList (map PDict rows))]) \<and>
           dict_get (rows ! i) (PStr v) = Some x \<and>
           PDict [(PStr ''name'', PStr v), (PStr ''friendly_name'', PStr v),
                  (PStr ''type'', PStr ''string'')] \<in> set cols"
proof (intro exI conjI)
  show "transform_parsed sr =
          Inr (PDict [(PStr ''columns'', PList (map (\<lambda>v. column (PStr v)) vs)),
                      (PStr ''rows'', PList (map PDict (map (\<lambda>b. filled_row b vs []) bs)))])"
    by (rule parsed_valid [OF assms(2)])
  show "fst (transform_sparql_results ext s w) =
          json_dumps ext (PDict [(PStr ''columns'', PList (map (\<lambda>v. column (PStr v)) vs)),
                                 (PStr ''rows'', PList (map PDict (map (\<lambda>b. filled_row b vs []) bs)))])"
    by (rule translate_valid [OF assms(1,2)])
  have "spec_cell (bs ! i) v = x"
    using assms(5,6) by (simp add: spec_cell_def)
  then show "dict_get (map (\<lambda>b. filled_row b vs []) bs ! i) (PStr v) = Some x"
    using assms(3,4) by (simp add: filled_row_get)
  show "PDict [(PStr ''name'', PStr v), (PStr ''friendly_name'', PStr v),
               (PStr ''type'', PStr ''string'')] \<in> set (map (\<lambda>v. column (PStr v)) vs)"
    using assms(4) by (auto simp: column_def)
qed

text \<open>The theorem of claim C10 on a binding whose \<open>value\<close> is the number 42.\<close>

theorem value_copied_verbatim_witness:
  "json_loads (fixed_externals ''doc'' (sparql_document [''a'', ''b''] two_bindings) ''out'' (Inr ''doc'')) ''doc''
     = Inr (sparql_document [''a'', ''b''] two_bindings) \<and>
   sparql_valid (sparql_document [''a'', ''b''] two_bindings) [''a'', ''b''] two_bindings \<and>
   0 < length two_bindings \<and> ''a'' \<in> set [''a'', ''b''] \<and>
   dict_get (two_bindings ! 0) (PStr ''a'') =
     Some (PDict [(PStr ''type'', PStr ''literal''), (PStr ''value'', PInt 42)]) \<and>
   dict_get [(PStr ''type'', PStr ''literal''), (PStr ''value'', PInt 42)] (PStr ''value'') = Some (PInt 42) \<and>
   (\<exists>cols rows.
      transform_parsed (sparql_document [''a'', ''b''] two_bindings) =
        Inr (PDict [(PStr ''columns'', PList cols), (PStr ''rows'', PList (map PDict rows))]) \<and>
      dict_get (rows ! 0) (PStr ''a'') = Some (PInt 42) \<and>
      PDict [(PStr ''name'', PStr ''a''), (PStr ''friendly_name'', PStr ''a''),
             (PStr ''type'', PStr ''string'')] \<in> set cols)"
proof -
  let ?doc = "sparql_document [''a'', ''b''] two_bindings"
  let ?ext = "fixed_externals ''doc'' ?doc ''out'' (Inr ''doc'')"
  have l: "json_loads ?ext ''doc'' = Inr ?doc" by (rule fixed_loads)
  have n: "0 < length two_bindings" by (simp add: two_bindings_def)
  have m: "''a'' \<in> set [''a'', ''b'']" by simp
  have d: "dict_get (two_bindings ! 0) (PStr ''a'') =
             Some (PDict [(PStr ''type'', PStr ''literal''), (PStr ''value'', PInt 42)])"
    by (simp add: two_bindings_def)
  have x: "dict_get [(PStr ''type'', PStr ''literal''), (PStr ''value'', PInt 42)] (PStr ''value'')
             = Some (PInt 42)"
    by simp
  have "\<exists>cols rows.
      transform_parsed ?doc =
        Inr (PDict [(PStr ''columns'', PList cols), (PStr ''rows'', PList (map PDict rows))]) \<and>
      dict_get (rows ! 0) (PStr ''a'') = Some (PInt 42) \<and>
      PDict [(PStr ''name'', PStr ''a''), (PStr ''friendly_name'', PStr ''a''),
             (PStr ''type'', PStr ''string'')] \<in> set cols"
    using value_copied_verbatim [OF l two_bindings_valid n m d x, of quiet_world] by blast
  then show ?thesis using l two_bindings_valid n d by simp
qed

end
